theory Spec2Isabelle
  imports Complex_Main "HOL-Library.Monad_Syntax"
begin

section \<open>Data model of parallelSimplex.cpp\<close>

text \<open>
  The tableau is the matrix \<open>double **tableau\<close>, allocated with \<open>constraintNumb + 1\<close> rows
  of \<open>colNumb + 1\<close> entries (after the two decrements at the start of \<open>main\<close>). An access
  outside the allocated block is undefined behaviour in the source and is the result \<open>None\<close>
  here. The indices \<open>max.index\<close> and \<open>min.index\<close> are integers, since they start at \<open>-1\<close>;
  the loop variables and the counters \<open>count\<close>, \<open>conta\<close> and \<open>ni\<close> are natural numbers.

  The loops of the program are written once, for any type of entries. The program is then
  read in three ways, and every property below says which one it is about:

  \<^item> \<open>iteration\<close>, \<open>pivot_loop\<close> and \<open>simplex\<close>: a team of one thread, entries in exact
    rational arithmetic. The work-sharing loops run in index order (the private copy of a
    reduction variable then meets the shared one, which holds the same sentinel value, so
    the result is that of the plain loop). \<open>HUGE_VAL\<close>, the default of \<open>Compare_Min.val\<close>, is a
    value of its own above every finite one. Division is that of the rationals.

  \<^item> \<open>iteration_s\<close>, \<open>pivot_loop_s\<close> and \<open>simplex_s\<close>: a team of several threads, entries in
    exact rational arithmetic; the pass is a function of the order in which the threads reach
    the lines 319 to 349.

  \<^item> \<open>iteration_d\<close>, \<open>pivot_loop_d\<close> and \<open>simplex_d\<close>: a team of one thread, entries of type
    \<open>double\<close> with its infinities and NaN.

  The two declared reductions are the functions \<open>maximo\<close> and \<open>minimo\<close>.
\<close>

datatype hval = Fin rat | HUGE_VAL

record 'v Compare =
  val :: 'v
  index :: int

type_synonym Compare_Max = "rat Compare"
type_synonym Compare_Min = "hval Compare"

definition Compare_Max_default :: Compare_Max where
  "Compare_Max_default = \<lparr>val = 0, index = -1\<rparr>"

definition Compare_Min_default :: Compare_Min where
  "Compare_Min_default = \<lparr>val = HUGE_VAL, index = -1\<rparr>"

fun hless :: "hval \<Rightarrow> hval \<Rightarrow> bool" where
  "hless (Fin a) (Fin b) = (a < b)"
| "hless (Fin a) HUGE_VAL = True"
| "hless HUGE_VAL b = False"

text \<open>The combiners of the two \<open>omp declare reduction\<close> lines: the value is the new \<open>omp_out\<close>.\<close>

definition minimo :: "Compare_Min \<Rightarrow> Compare_Min \<Rightarrow> Compare_Min" where
  "minimo omp_in omp_out = (if hless (val omp_in) (val omp_out) then omp_in else omp_out)"

definition maximo :: "Compare_Max \<Rightarrow> Compare_Max \<Rightarrow> Compare_Max" where
  "maximo omp_in omp_out = (if val omp_in > val omp_out then omp_in else omp_out)"

type_synonym matrix = "rat list list"

definition rd :: "'a list list \<Rightarrow> int \<Rightarrow> int \<Rightarrow> 'a option" where
  "rd t i j =
     (if 0 \<le> i \<and> i < int (length t) \<and> 0 \<le> j \<and> j < int (length (t ! nat i))
      then Some (t ! nat i ! nat j) else None)"

definition wr :: "'a list list \<Rightarrow> int \<Rightarrow> int \<Rightarrow> 'a \<Rightarrow> 'a list list option" where
  "wr t i j v =
     (if 0 \<le> i \<and> i < int (length t) \<and> 0 \<le> j \<and> j < int (length (t ! nat i))
      then Some (t[nat i := (t ! nat i)[nat j := v]]) else None)"

datatype error = OutOfBounds | NoSolution

record ('a, 'm) shared_vars =
  tableau :: "'a list list"
  constraintNumb :: nat
  colNumb :: nat
  maxC :: "'a Compare"
  minC :: "'m Compare"
  count :: nat
  conta :: nat
  ni :: nat

type_synonym state = "(rat, hval) shared_vars"

section \<open>The phases of the pivot loop\<close>

text \<open>Lines 294-299: the scan of the objective row before the loop, \<open>j = 0 .. colNumb\<close>.\<close>

fun initial_scan ::
  "('a::{zero,ord,uminus}) list list \<Rightarrow> nat \<Rightarrow> nat list \<Rightarrow> 'a Compare \<Rightarrow> 'a Compare option" where
  "initial_scan t cn [] mx = Some mx"
| "initial_scan t cn (j # js) mx = do {
     v \<leftarrow> rd t (int cn) (int j);
     initial_scan t cn js
       (if v < 0 \<and> val mx < - v then \<lparr>val = - v, index = int j\<rparr> else mx)
   }"

text \<open>Lines 307-317: the ratio test over the constraint rows, in the column \<open>max.index\<close>.\<close>

fun ratio_test ::
  "matrix \<Rightarrow> nat \<Rightarrow> int \<Rightarrow> nat list \<Rightarrow> Compare_Min \<times> nat \<Rightarrow> (Compare_Min \<times> nat) option" where
  "ratio_test t coln c [] acc = Some acc"
| "ratio_test t coln c (i # is) (mn, cnt) = do {
     a \<leftarrow> rd t (int i) c;
     if a > 0 then do {
       b \<leftarrow> rd t (int i) (int coln);
       let pivot = b / a;
       ratio_test t coln c is
         (if hless (Fin pivot) (val mn) then \<lparr>val = Fin pivot, index = int i\<rparr> else mn, cnt)
     } else ratio_test t coln c is (mn, cnt + 1)
   }"

text \<open>Lines 334-336: the pivot row is divided by the pivot.\<close>

fun normalize_row :: "('a::inverse) list list \<Rightarrow> int \<Rightarrow> 'a \<Rightarrow> nat list \<Rightarrow> 'a list list option" where
  "normalize_row t r pivot [] = Some t"
| "normalize_row t r pivot (j # js) = do {
     x \<leftarrow> rd t r (int j);
     t' \<leftarrow> wr t r (int j) (x / pivot);
     normalize_row t' r pivot js
   }"

text \<open>Lines 343-345: the inner loop of the elimination of row \<open>i\<close>.\<close>

fun eliminate_cols ::
  "('a::{plus,times}) list list \<Rightarrow> int \<Rightarrow> 'a \<Rightarrow> nat \<Rightarrow> nat list \<Rightarrow> 'a list list option" where
  "eliminate_cols t r pivot2 i [] = Some t"
| "eliminate_cols t r pivot2 i (j # js) = do {
     x \<leftarrow> rd t r (int j);
     y \<leftarrow> rd t (int i) (int j);
     t' \<leftarrow> wr t (int i) (int j) (pivot2 * x + y);
     eliminate_cols t' r pivot2 i js
   }"

text \<open>Lines 339-347: every constraint row but the pivot row.\<close>

fun eliminate_rows ::
  "('a::{plus,times,uminus}) list list \<Rightarrow> nat \<Rightarrow> int \<Rightarrow> int \<Rightarrow> nat list \<Rightarrow> 'a list list option" where
  "eliminate_rows t coln r c [] = Some t"
| "eliminate_rows t coln r c (i # is) =
     (if int i \<noteq> r then do {
        a \<leftarrow> rd t (int i) c;
        let pivot2 = - a;
        t' \<leftarrow> eliminate_cols t r pivot2 i [0..<Suc coln];
        eliminate_rows t' coln r c is
      } else eliminate_rows t coln r c is)"

text \<open>Lines 349-359: the objective row, with the scan for the next entering column.\<close>

fun objective_update ::
  "('a::{zero,ord,plus,times,uminus}) list list \<Rightarrow> nat \<Rightarrow> nat \<Rightarrow> int \<Rightarrow> 'a \<Rightarrow> nat list
     \<Rightarrow> 'a Compare \<times> nat \<Rightarrow> ('a list list \<times> 'a Compare \<times> nat) option" where
  "objective_update t cn coln r pivot3 [] (mx, cnta) = Some (t, mx, cnta)"
| "objective_update t cn coln r pivot3 (j # js) (mx, cnta) = do {
     x \<leftarrow> rd t r (int j);
     y \<leftarrow> rd t (int cn) (int j);
     t' \<leftarrow> wr t (int cn) (int j) (pivot3 * x + y);
     v \<leftarrow> rd t' (int cn) (int j);
     if j < coln \<and> v < 0
     then objective_update t' cn coln r pivot3 js
            (if val mx < - v then \<lparr>val = - v, index = int j\<rparr> else mx, cnta + 1)
     else objective_update t' cn coln r pivot3 js (mx, cnta)
   }"

text \<open>Lines 329-359: the three phases of one pivot on row \<open>r\<close> and column \<open>c\<close>.\<close>

definition row_eliminator ::
  "('a::{zero,ord,plus,times,uminus,inverse}) list list \<Rightarrow> nat \<Rightarrow> nat \<Rightarrow> int \<Rightarrow> int \<Rightarrow> 'a Compare
     \<Rightarrow> ('a list list \<times> 'a Compare \<times> nat) option" where
  "row_eliminator t cn coln r c mx = do {
     pivot \<leftarrow> rd t r c;
     a \<leftarrow> rd t (int cn) c;
     let pivot3 = - a;
     t1 \<leftarrow> normalize_row t r pivot [0..<Suc coln];
     t2 \<leftarrow> eliminate_rows t1 coln r c [0..<cn];
     objective_update t2 cn coln r pivot3 [0..<Suc coln] (mx, 0)
   }"

text \<open>
  Lines 305-366: one pass of the body of the \<open>do ... while (conta)\<close> loop. \<open>exit(1)\<close> after
  the message of line 322 is the error \<open>NoSolution\<close>.
\<close>

definition iteration :: "state \<Rightarrow> error + state" where
  "iteration s =
     (case ratio_test (tableau s) (colNumb s) (index (maxC s)) [0..<constraintNumb s]
             (minC s, count s) of
        None \<Rightarrow> Inl OutOfBounds
      | Some (mn, cnt) \<Rightarrow>
          if cnt = constraintNumb s then Inl NoSolution
          else
            (case row_eliminator (tableau s) (constraintNumb s) (colNumb s)
                    (index mn) (index (maxC s)) (maxC s) of
               None \<Rightarrow> Inl OutOfBounds
             | Some (t', mx, cnta) \<Rightarrow>
                 Inr (s\<lparr>tableau := t', count := 0, conta := cnta, ni := ni s + 1,
                        maxC := mx\<lparr>val := 0\<rparr>, minC := mn\<lparr>val := HUGE_VAL\<rparr>\<rparr>)))"

partial_function (option) pivot_loop :: "state \<Rightarrow> (error + state) option" where
  "pivot_loop s =
     (case iteration s of
        Inl e \<Rightarrow> Some (Inl e)
      | Inr s' \<Rightarrow> if conta s' \<noteq> 0 then pivot_loop s' else Some (Inr s'))"

text \<open>Lines 260-303: the shared variables before the loop, after the first scan.\<close>

definition initial_state :: "matrix \<Rightarrow> nat \<Rightarrow> nat \<Rightarrow> state option" where
  "initial_state t cn coln = do {
     mx \<leftarrow> initial_scan t cn [0..<Suc coln] Compare_Max_default;
     Some \<lparr>tableau = t, constraintNumb = cn, colNumb = coln,
           maxC = mx\<lparr>val := 0\<rparr>, minC = Compare_Min_default,
           count = 0, conta = 0, ni = 0\<rparr>
   }"

definition simplex :: "matrix \<Rightarrow> nat \<Rightarrow> nat \<Rightarrow> (error + state) option" where
  "simplex t cn coln =
     (case initial_state t cn coln of
        None \<Rightarrow> Some (Inl OutOfBounds)
      | Some s \<Rightarrow> pivot_loop s)"

text \<open>Line 381 prints \<open>ni\<close> and \<open>tableau[constraintNumb][colNumb]\<close> when the loop has ended.\<close>

definition objective_value :: "error + state \<Rightarrow> rat option" where
  "objective_value res =
     (case res of
        Inl e \<Rightarrow> None
      | Inr s \<Rightarrow> rd (tableau s) (int (constraintNumb s)) (int (colNumb s)))"

text \<open>The exit status: 1 from \<open>exit(1)\<close>, 0 from the end of \<open>main\<close>, none after a wild access.\<close>

definition exit_status :: "error + state \<Rightarrow> int option" where
  "exit_status res =
     (case res of
        Inl NoSolution \<Rightarrow> Some 1
      | Inl OutOfBounds \<Rightarrow> None
      | Inr s \<Rightarrow> Some 0)"

declare pivot_loop.simps [code]

section \<open>Notions used to state the properties\<close>

text \<open>
  A tableau is well formed when it is the allocated block: \<open>constraintNumb + 1\<close> rows of
  \<open>colNumb + 1\<close> entries. \<open>put\<close> is the assignment \<open>tableau[i][j] = v\<close> inside the block.
\<close>

definition wf_tab :: "matrix \<Rightarrow> nat \<Rightarrow> nat \<Rightarrow> bool" where
  "wf_tab t cn coln \<longleftrightarrow> length t = Suc cn \<and> list_all (\<lambda>row. length row = Suc coln) t"

definition put :: "matrix \<Rightarrow> nat \<Rightarrow> nat \<Rightarrow> rat \<Rightarrow> matrix" where
  "put t i j v = t[i := (t ! i)[j := v]]"

text \<open>
  The tableau \<open>t'\<close> is \<open>t\<close> after a pivot on row \<open>r\<close> and column \<open>c\<close>: the pivot row divided
  by the pivot, every other row (the objective row is row \<open>cn\<close>) reduced by its entry in
  the pivot column times the pivot row.
\<close>

definition pivoted :: "matrix \<Rightarrow> nat \<Rightarrow> nat \<Rightarrow> nat \<Rightarrow> nat \<Rightarrow> matrix \<Rightarrow> bool" where
  "pivoted t cn coln r c t' \<longleftrightarrow>
     (\<forall>j\<le>coln. t' ! r ! j = t ! r ! j / t ! r ! c) \<and>
     (\<forall>i\<le>cn. i \<noteq> r \<longrightarrow> (\<forall>j\<le>coln. t' ! i ! j = t ! i ! j + (- (t ! i ! c)) * (t ! r ! j / t ! r ! c)))"

text \<open>The basis is feasible when the right-hand side of every constraint row is not negative.\<close>

definition feasible :: "matrix \<Rightarrow> nat \<Rightarrow> nat \<Rightarrow> bool" where
  "feasible t cn coln \<longleftrightarrow> list_all (\<lambda>i. 0 \<le> t ! i ! coln) [0..<cn]"

text \<open>\<open>iterations n s\<close>: the state after \<open>n\<close> passes of the loop body that each went on (\<open>conta \<noteq> 0\<close>).\<close>

fun iterations :: "nat \<Rightarrow> state \<Rightarrow> state option" where
  "iterations 0 s = Some s"
| "iterations (Suc n) s =
     (case iterations n s of
        None \<Rightarrow> None
      | Some s1 \<Rightarrow>
          (case iteration s1 of
             Inl e \<Rightarrow> None
           | Inr s' \<Rightarrow> if conta s' \<noteq> 0 then Some s' else None))"

text \<open>The shared variables at the start of pass \<open>n + 1\<close> of the loop body, when the run gets there.\<close>

definition state_at :: "nat \<Rightarrow> matrix \<Rightarrow> nat \<Rightarrow> nat \<Rightarrow> state option" where
  "state_at n t cn coln = (case initial_state t cn coln of None \<Rightarrow> None | Some s0 \<Rightarrow> iterations n s0)"

text \<open>The pass of the loop body that starts in \<open>s\<close> ends the run with the result \<open>res\<close>.\<close>

definition exits_with :: "state \<Rightarrow> error + state \<Rightarrow> bool" where
  "exits_with s res \<longleftrightarrow>
     (case iteration s of Inl e \<Rightarrow> res = Inl e | Inr s' \<Rightarrow> conta s' = 0 \<and> res = Inr s')"

text \<open>
  What holds of the shared variables whenever the loop body starts: the sentinels are reset,
  and the entering column is the sentinel \<open>-1\<close> or a column with a negative objective entry.
\<close>

definition loop_inv :: "state \<Rightarrow> bool" where
  "loop_inv s \<longleftrightarrow>
     wf_tab (tableau s) (constraintNumb s) (colNumb s) \<and>
     val (maxC s) = 0 \<and> val (minC s) = HUGE_VAL \<and> count s = 0"

definition run_inv :: "state \<Rightarrow> bool" where
  "run_inv s \<longleftrightarrow> loop_inv s \<and>
     (index (maxC s) = - 1 \<or>
      (\<exists>c\<le>colNumb s. index (maxC s) = int c \<and> tableau s ! constraintNumb s ! c < 0))"

section \<open>Concrete tableaux\<close>

text \<open>
  The scenario of the specification (maximize \<open>3 x1 + 5 x2\<close>), with the shared variables
  at the start of the loop, after the first pivot and at the end; and the tableau with one
  constraint row whose entering column has no positive entry.
\<close>

definition scenario :: matrix where
  "scenario = [[1, 0, 1, 0, 0, 4], [0, 2, 0, 1, 0, 12], [3, 2, 0, 0, 1, 18], [- 3, - 5, 0, 0, 0, 0]]"

definition scenario_start :: state where
  "scenario_start = \<lparr>tableau = scenario, constraintNumb = 3, colNumb = 5,
     maxC = \<lparr>val = 0, index = 1\<rparr>, minC = \<lparr>val = HUGE_VAL, index = - 1\<rparr>,
     count = 0, conta = 0, ni = 0\<rparr>"

definition scenario_mid :: state where
  "scenario_mid = \<lparr>tableau =
       [[1, 0, 1, 0, 0, 4], [0, 1, 0, 1 / 2, 0, 6], [3, 0, 0, - 1, 1, 6], [- 3, 0, 0, 5 / 2, 0, 30]],
     constraintNumb = 3, colNumb = 5,
     maxC = \<lparr>val = 0, index = 0\<rparr>, minC = \<lparr>val = HUGE_VAL, index = 1\<rparr>,
     count = 0, conta = 1, ni = 1\<rparr>"

definition scenario_final :: state where
  "scenario_final = \<lparr>tableau =
       [[0, 0, 1, 1 / 3, - (1 / 3), 2], [0, 1, 0, 1 / 2, 0, 6], [1, 0, 0, - (1 / 3), 1 / 3, 2],
        [0, 0, 0, 3 / 2, 1, 36]],
     constraintNumb = 3, colNumb = 5,
     maxC = \<lparr>val = 0, index = 0\<rparr>, minC = \<lparr>val = HUGE_VAL, index = 2\<rparr>,
     count = 0, conta = 0, ni = 2\<rparr>"

definition unbounded_scenario :: matrix where
  "unbounded_scenario = [[- 1, 0, 5], [- 1, 0, 0]]"

definition unbounded_start :: state where
  "unbounded_start = \<lparr>tableau = unbounded_scenario, constraintNumb = 1, colNumb = 2,
     maxC = \<lparr>val = 0, index = 0\<rparr>, minC = \<lparr>val = HUGE_VAL, index = - 1\<rparr>,
     count = 0, conta = 0, ni = 0\<rparr>"

text \<open>The objective row, as scanned by lines 295-299, has a strictly negative entry.\<close>

definition objective_has_negative :: "matrix \<Rightarrow> nat \<Rightarrow> nat \<Rightarrow> bool" where
  "objective_has_negative t cn coln \<longleftrightarrow> list_ex (\<lambda>j. t ! cn ! j < 0) [0..<Suc coln]"

text \<open>
  The ratio test of the first pass of the loop body, run on the shared variables left by the
  first scan; \<open>None\<close> when it reads outside the block.
\<close>

definition first_ratio_test :: "matrix \<Rightarrow> nat \<Rightarrow> nat \<Rightarrow> (Compare_Min \<times> nat) option" where
  "first_ratio_test t cn coln =
     (case initial_state t cn coln of
        None \<Rightarrow> None
      | Some s \<Rightarrow>
          ratio_test (tableau s) (colNumb s) (index (maxC s)) [0..<constraintNumb s]
            (minC s, count s))"

text \<open>Three more tableaux: a negative entry in the corner, no constraint row, and no negative objective entry.\<close>

definition negative_corner :: matrix where
  "negative_corner = [[1, 1, 2], [- 1, 0, - 5]]"

definition no_constraints :: matrix where
  "no_constraints = [[1, 0]]"

definition optimal_at_start :: matrix where
  "optimal_at_start = [[1, 1, 2], [1, 0, 0]]"

text \<open>
  Chvatal's degenerate example (maximize \<open>10 x1 - 57 x2 - 9 x3 - 24 x4\<close>, three constraints,
  slack basis with right-hand side \<open>0, 0, 1\<close>) and the five tableaux that the loop goes
  through before it is back at the first one.
\<close>

definition chvatal :: matrix where
  "chvatal =
     [[1 / 2, - (11 / 2), - (5 / 2), 9, 1, 0, 0, 0],
      [1 / 2, - (3 / 2), - (1 / 2), 1, 0, 1, 0, 0],
      [1, 0, 0, 0, 0, 0, 1, 1],
      [- 10, 57, 9, 24, 0, 0, 0, 0]]"

definition chvatal_1 :: matrix where
  "chvatal_1 =
     [[1, - 11, - 5, 18, 2, 0, 0, 0],
      [0, 4, 2, - 8, - 1, 1, 0, 0],
      [0, 11, 5, - 18, - 2, 0, 1, 1],
      [0, - 53, - 41, 204, 20, 0, 0, 0]]"

definition chvatal_2 :: matrix where
  "chvatal_2 =
     [[1, 0, 1 / 2, - 4, - (3 / 4), 11 / 4, 0, 0],
      [0, 1, 1 / 2, - 2, - (1 / 4), 1 / 4, 0, 0],
      [0, 0, - (1 / 2), 4, 3 / 4, - (11 / 4), 1, 1],
      [0, 0, - (29 / 2), 98, 27 / 4, 53 / 4, 0, 0]]"

definition chvatal_3 :: matrix where
  "chvatal_3 =
     [[2, 0, 1, - 8, - (3 / 2), 11 / 2, 0, 0],
      [- 1, 1, 0, 2, 1 / 2, - (5 / 2), 0, 0],
      [1, 0, 0, 0, 0, 0, 1, 1],
      [29, 0, 0, - 18, - 15, 93, 0, 0]]"

definition chvatal_4 :: matrix where
  "chvatal_4 =
     [[- 2, 4, 1, 0, 1 / 2, - (9 / 2), 0, 0],
      [- (1 / 2), 1 / 2, 0, 1, 1 / 4, - (5 / 4), 0, 0],
      [1, 0, 0, 0, 0, 0, 1, 1],
      [20, 9, 0, 0, - (21 / 2), 141 / 2, 0, 0]]"

definition chvatal_5 :: matrix where
  "chvatal_5 =
     [[- 4, 8, 2, 0, 1, - 9, 0, 0],
      [1 / 2, - (3 / 2), - (1 / 2), 1, 0, 1, 0, 0],
      [1, 0, 0, 0, 0, 0, 1, 1],
      [- 22, 93, 21, 0, 0, - 24, 0, 0]]"

text \<open>
  The shared variables at a stage of the cycle: the tableau, the entering column and the reset
  sentinels; the pass counter and the stale index of \<open>min\<close> are free.
\<close>

definition at_stage :: "matrix \<Rightarrow> int \<Rightarrow> state \<Rightarrow> bool" where
  "at_stage t c s \<longleftrightarrow> tableau s = t \<and> constraintNumb s = 3 \<and> colNumb s = 7 \<and>
     index (maxC s) = c \<and> val (maxC s) = 0 \<and> val (minC s) = HUGE_VAL \<and> count s = 0"

definition in_cycle :: "state \<Rightarrow> bool" where
  "in_cycle s \<longleftrightarrow> at_stage chvatal 0 s \<or> at_stage chvatal_1 1 s \<or> at_stage chvatal_2 2 s \<or>
     at_stage chvatal_3 3 s \<or> at_stage chvatal_4 4 s \<or> at_stage chvatal_5 5 s"

section \<open>Passes under a thread schedule\<close>

text \<open>
  With two or more threads, two places of the loop body depend on the order in which the
  threads run.

  Line 319 is \<open>single nowait\<close>: while one thread compares \<open>count\<close> with \<open>constraintNumb\<close>
  and calls \<open>exit(1)\<close>, the others go on to lines 329-330 and read
  \<open>tableau[min.index][max.index]\<close> and \<open>tableau[constraintNumb][max.index]\<close>. The flag
  \<open>ahead\<close> says that such a thread gets there before the process has ended.

  The loop of line 339 is \<open>for nowait\<close> and its line 341 reads the shared \<open>max.index\<close>,
  while the reduction of line 349 stores the next entering column as soon as a thread has
  finished its share of that loop. The list \<open>late\<close> holds the constraint rows that their
  thread eliminates only after another thread has run the whole loop of line 349 and stored
  its result: these rows read the new \<open>max.index\<close>, the others the old one.

  Such an order exists as soon as the team has two threads: a thread that has no row left in
  the loop of line 339 goes on to line 349 without waiting, runs the iterations of that loop
  (\<open>schedule(guided,chunk)\<close> hands them out on demand) and merges its result into the shared
  \<open>max\<close> before the barrier that ends the loop. The barrier of line 332 keeps the reads of
  lines 329-330 and the normalization of the pivot row before all of this, and the barrier
  at the end of the loop of line 349 keeps the late rows inside their pass.

  \<open>one_thread\<close> is the schedule of a team of one thread. The functions \<open>iteration\<close>,
  \<open>pivot_loop\<close> and \<open>simplex\<close> above are the pass, the loop and the run under it.
\<close>

record pass_schedule =
  ahead :: bool
  late :: "nat list"

definition one_thread :: pass_schedule where
  "one_thread = \<lparr>ahead = False, late = []\<rparr>"

fun eliminate_rows_s :: "matrix \<Rightarrow> nat \<Rightarrow> int \<Rightarrow> (nat \<Rightarrow> int) \<Rightarrow> nat list \<Rightarrow> matrix option" where
  "eliminate_rows_s t coln r seen [] = Some t"
| "eliminate_rows_s t coln r seen (i # is) =
     (if int i \<noteq> r then do {
        a \<leftarrow> rd t (int i) (seen i);
        let pivot2 = - a;
        t' \<leftarrow> eliminate_cols t r pivot2 i [0..<Suc coln];
        eliminate_rows_s t' coln r seen is
      } else eliminate_rows_s t coln r seen is)"

definition row_eliminator_s ::
  "nat list \<Rightarrow> matrix \<Rightarrow> nat \<Rightarrow> nat \<Rightarrow> int \<Rightarrow> int \<Rightarrow> Compare_Max
     \<Rightarrow> (matrix \<times> Compare_Max \<times> nat) option" where
  "row_eliminator_s lt t cn coln r c mx = do {
     pivot \<leftarrow> rd t r c;
     a \<leftarrow> rd t (int cn) c;
     let pivot3 = - a;
     t1 \<leftarrow> normalize_row t r pivot [0..<Suc coln];
     t2 \<leftarrow> eliminate_rows_s t1 coln r (\<lambda>i. c) (filter (\<lambda>i. i \<notin> set lt) [0..<cn]);
     (t3, mx', cnta) \<leftarrow> objective_update t2 cn coln r pivot3 [0..<Suc coln] (mx, 0);
     t4 \<leftarrow> eliminate_rows_s t3 coln r (\<lambda>i. index mx') (filter (\<lambda>i. i \<in> set lt) [0..<cn]);
     Some (t4, mx', cnta)
   }"

definition iteration_s :: "pass_schedule \<Rightarrow> state \<Rightarrow> error + state" where
  "iteration_s sch s =
     (case ratio_test (tableau s) (colNumb s) (index (maxC s)) [0..<constraintNumb s]
             (minC s, count s) of
        None \<Rightarrow> Inl OutOfBounds
      | Some (mn, cnt) \<Rightarrow>
          if cnt = constraintNumb s then
            (if ahead sch then
               (case do {
                       pivot \<leftarrow> rd (tableau s) (index mn) (index (maxC s));
                       rd (tableau s) (int (constraintNumb s)) (index (maxC s))
                     } of
                  None \<Rightarrow> Inl OutOfBounds
                | Some a \<Rightarrow> Inl NoSolution)
             else Inl NoSolution)
          else
            (case row_eliminator_s (late sch) (tableau s) (constraintNumb s) (colNumb s)
                    (index mn) (index (maxC s)) (maxC s) of
               None \<Rightarrow> Inl OutOfBounds
             | Some (t', mx, cnta) \<Rightarrow>
                 Inr (s\<lparr>tableau := t', count := 0, conta := cnta, ni := ni s + 1,
                        maxC := mx\<lparr>val := 0\<rparr>, minC := mn\<lparr>val := HUGE_VAL\<rparr>\<rparr>)))"

partial_function (option) pivot_loop_s :: "(nat \<Rightarrow> pass_schedule) \<Rightarrow> state \<Rightarrow> (error + state) option" where
  "pivot_loop_s sched s =
     (case iteration_s (sched (ni s)) s of
        Inl e \<Rightarrow> Some (Inl e)
      | Inr s' \<Rightarrow> if conta s' \<noteq> 0 then pivot_loop_s sched s' else Some (Inr s'))"

definition simplex_s :: "(nat \<Rightarrow> pass_schedule) \<Rightarrow> matrix \<Rightarrow> nat \<Rightarrow> nat \<Rightarrow> (error + state) option" where
  "simplex_s sched t cn coln =
     (case initial_state t cn coln of
        None \<Rightarrow> Some (Inl OutOfBounds)
      | Some s \<Rightarrow> pivot_loop_s sched s)"

declare pivot_loop_s.simps [code]

text \<open>
  The schedules used below: row 0, or rows 0 and 2, late in the first pass and no race
  afterwards; and a thread ahead of \<open>exit(1)\<close> in every pass.
\<close>

definition row0_late :: "nat \<Rightarrow> pass_schedule" where
  "row0_late n = (if n = 0 then \<lparr>ahead = False, late = [0]\<rparr> else one_thread)"

definition rows02_late :: "nat \<Rightarrow> pass_schedule" where
  "rows02_late n = (if n = 0 then \<lparr>ahead = False, late = [0, 2]\<rparr> else one_thread)"

definition others_ahead :: "nat \<Rightarrow> pass_schedule" where
  "others_ahead n = \<lparr>ahead = True, late = []\<rparr>"

text \<open>The number of passes \<open>ni\<close> of a run that has left the loop.\<close>

definition iteration_count :: "error + state \<Rightarrow> nat option" where
  "iteration_count res = (case res of Inl e \<Rightarrow> None | Inr s \<Rightarrow> Some (ni s))"

text \<open>The scenario after the first pass with row 0 late, and after the second pass.\<close>

definition raced_mid :: state where
  "raced_mid = \<lparr>tableau =
       [[1, - 1, 1, - (1 / 2), 0, - 2], [0, 1, 0, 1 / 2, 0, 6], [3, 0, 0, - 1, 1, 6],
        [- 3, 0, 0, 5 / 2, 0, 30]],
     constraintNumb = 3, colNumb = 5,
     maxC = \<lparr>val = 0, index = 0\<rparr>, minC = \<lparr>val = HUGE_VAL, index = 1\<rparr>,
     count = 0, conta = 1, ni = 1\<rparr>"

definition raced_next :: state where
  "raced_next = \<lparr>tableau =
       [[1, - 1, 1, - (1 / 2), 0, - 2], [0, 1, 0, 1 / 2, 0, 6], [0, 3, - 3, 1 / 2, 1, 12],
        [0, - 3, 3, 1, 0, 24]],
     constraintNumb = 3, colNumb = 5,
     maxC = \<lparr>val = 0, index = 1\<rparr>, minC = \<lparr>val = HUGE_VAL, index = 0\<rparr>,
     count = 0, conta = 1, ni = 2\<rparr>"

section \<open>Double arithmetic\<close>

text \<open>
  The values of a \<open>double\<close> that exact arithmetic leaves out: the two infinities and NaN, with
  the operations of IEEE 754 on them. Finite results are not rounded; a finite result of
  magnitude \<open>2^1024 - 2^970\<close> or more overflows to an infinity, as under rounding to nearest.
  Signed zeros are not modelled. \<open>HUGE_VAL\<close> is \<open>PInf\<close>, and the loops above are used as they
  are, at this type; the ratio test, the pass and the loop are those of one thread.
\<close>

datatype dval = Finite rat | PInf | NInf | NaN

definition overflow :: "rat \<Rightarrow> dval" where
  "overflow x =
     (if 2 ^ 1024 - 2 ^ 970 \<le> x then PInf
      else if x \<le> - (2 ^ 1024 - 2 ^ 970) then NInf
      else Finite x)"

fun dneg :: "dval \<Rightarrow> dval" where
  "dneg (Finite a) = Finite (- a)"
| "dneg PInf = NInf"
| "dneg NInf = PInf"
| "dneg NaN = NaN"

fun dadd :: "dval \<Rightarrow> dval \<Rightarrow> dval" where
  "dadd NaN b = NaN"
| "dadd a NaN = NaN"
| "dadd PInf NInf = NaN"
| "dadd NInf PInf = NaN"
| "dadd PInf b = PInf"
| "dadd a PInf = PInf"
| "dadd NInf b = NInf"
| "dadd a NInf = NInf"
| "dadd (Finite a) (Finite b) = overflow (a + b)"

fun signed_inf :: "rat \<Rightarrow> dval \<Rightarrow> dval" where
  "signed_inf a x = (if a = 0 then NaN else if 0 < a then x else dneg x)"

fun dmul :: "dval \<Rightarrow> dval \<Rightarrow> dval" where
  "dmul NaN b = NaN"
| "dmul a NaN = NaN"
| "dmul (Finite a) (Finite b) = overflow (a * b)"
| "dmul (Finite a) b = signed_inf a b"
| "dmul a (Finite b) = signed_inf b a"
| "dmul PInf b = b"
| "dmul NInf b = dneg b"

fun ddiv :: "dval \<Rightarrow> dval \<Rightarrow> dval" where
  "ddiv NaN b = NaN"
| "ddiv a NaN = NaN"
| "ddiv (Finite a) (Finite b) = (if b = 0 then signed_inf a PInf else overflow (a / b))"
| "ddiv (Finite a) b = Finite 0"
| "ddiv a (Finite b) = (if 0 \<le> b then a else dneg a)"
| "ddiv a b = NaN"

fun dless :: "dval \<Rightarrow> dval \<Rightarrow> bool" where
  "dless (Finite a) (Finite b) = (a < b)"
| "dless (Finite a) PInf = True"
| "dless NInf (Finite b) = True"
| "dless NInf PInf = True"
| "dless a b = False"

instantiation dval :: "{zero,plus,times,uminus,inverse,ord}"
begin

definition zero_dval :: dval where "zero_dval = Finite 0"
definition plus_dval :: "dval \<Rightarrow> dval \<Rightarrow> dval" where "plus_dval = dadd"
definition times_dval :: "dval \<Rightarrow> dval \<Rightarrow> dval" where "times_dval = dmul"
definition uminus_dval :: "dval \<Rightarrow> dval" where "uminus_dval = dneg"
definition divide_dval :: "dval \<Rightarrow> dval \<Rightarrow> dval" where "divide_dval = ddiv"
definition inverse_dval :: "dval \<Rightarrow> dval" where "inverse_dval = ddiv (Finite 1)"
definition less_dval :: "dval \<Rightarrow> dval \<Rightarrow> bool" where "less_dval = dless"
definition less_eq_dval :: "dval \<Rightarrow> dval \<Rightarrow> bool" where
  "less_eq_dval a b \<longleftrightarrow> dless a b \<or> (a = b \<and> a \<noteq> NaN)"

instance ..

end











section \<open>Notions for the schedules and for the basis\<close>



text \<open>
  The tableau is in canonical form for the basis heading \<open>bs\<close>: the column \<open>bs ! i\<close> is the
  unit vector of row \<open>i\<close>, with 0 in the objective row. \<open>lin t t'\<close>: the rows of \<open>t'\<close> are
  linear combinations of the rows of \<open>t\<close> in which the objective row only enters itself.
\<close>

definition canonical :: "matrix \<Rightarrow> nat \<Rightarrow> nat \<Rightarrow> nat list \<Rightarrow> bool" where
  "canonical t cn coln bs \<longleftrightarrow> length bs = cn \<and>
     (\<forall>i<cn. bs ! i \<le> coln \<and> (\<forall>k\<le>cn. t ! k ! (bs ! i) = (if k = i then 1 else 0)))"

definition lin :: "nat \<Rightarrow> nat \<Rightarrow> matrix \<Rightarrow> matrix \<Rightarrow> bool" where
  "lin cn coln t t' \<longleftrightarrow>
     (\<exists>N::nat \<Rightarrow> nat \<Rightarrow> rat. (\<forall>k\<le>cn. N k cn = (if k = cn then 1 else 0)) \<and>
        (\<forall>k\<le>cn. \<forall>j\<le>coln. t' ! k ! j = (\<Sum>l\<le>cn. N k l * t ! l ! j)))"

text \<open>No pivot of the run of one thread is degenerate: every pass raises the objective value.\<close>

definition nondegenerate_run :: "matrix \<Rightarrow> nat \<Rightarrow> nat \<Rightarrow> bool" where
  "nondegenerate_run t cn coln \<longleftrightarrow>
     (\<forall>n s s'. state_at n t cn coln = Some s \<longrightarrow> iteration s = Inr s' \<longrightarrow>
        tableau s ! cn ! coln < tableau s' ! cn ! coln)"

section \<open>The reductions\<close>

lemma hless_trans: "hless a b \<Longrightarrow> hless b c \<Longrightarrow> hless a c"
  by (cases a; cases b; cases c) auto

lemma hless_total: "\<not> hless a b \<Longrightarrow> \<not> hless b c \<Longrightarrow> \<not> hless a c"
  by (cases a; cases b; cases c) auto

lemma minimo_assoc: "minimo a (minimo b c) = minimo (minimo a b) c"
proof (cases "hless (val b) (val c)")
  case True
  then show ?thesis
    using hless_trans [of "val a" "val b" "val c"] by (simp add: minimo_def)
next
  case False
  then show ?thesis
    using hless_total [of "val a" "val b" "val c"] by (simp add: minimo_def)
qed

lemma minimo_comm_val: "val (minimo x y) = val (minimo y x)"
  by (cases "val x"; cases "val y") (auto simp: minimo_def)

lemma maximo_assoc: "maximo a (maximo b c) = maximo (maximo a b) c"
  by (simp add: maximo_def)

lemma maximo_comm_val: "val (maximo a b) = val (maximo b a)"
  by (simp add: maximo_def)

text \<open>
  Claim C9: each combiner of the Candidate Reduction is associative on (value, index) pairs,
  and commutative in the value component.
\<close>

theorem C9_reductions_assoc_comm_val:
  "maximo a (maximo b c) = maximo (maximo a b) c \<and>
   minimo x (minimo y z) = minimo (minimo x y) z \<and>
   val (maximo a b) = val (maximo b a) \<and>
   val (minimo x y) = val (minimo y x)"
  by (simp only: maximo_assoc minimo_assoc maximo_comm_val [of a b] minimo_comm_val [of x y] simp_thms)

section \<open>Accesses inside the allocated block\<close>

lemma wf_tab_row: "wf_tab t cn coln \<Longrightarrow> i \<le> cn \<Longrightarrow> length (t ! i) = Suc coln"
  by (simp add: wf_tab_def list_all_length)

lemma rd_wf: "wf_tab t cn coln \<Longrightarrow> i \<le> cn \<Longrightarrow> j \<le> coln \<Longrightarrow> rd t (int i) (int j) = Some (t ! i ! j)"
  by (simp add: rd_def wf_tab_def list_all_length)

lemma rd_Some_iff:
  "wf_tab t cn coln \<Longrightarrow>
   rd t i j = Some v \<longleftrightarrow> 0 \<le> i \<and> nat i \<le> cn \<and> 0 \<le> j \<and> nat j \<le> coln \<and> v = t ! nat i ! nat j"
  by (auto simp: rd_def wf_tab_def list_all_length)

lemma rd_None_iff:
  "wf_tab t cn coln \<Longrightarrow> rd t i j = None \<longleftrightarrow> \<not> (0 \<le> i \<and> nat i \<le> cn \<and> 0 \<le> j \<and> nat j \<le> coln)"
  by (auto simp: rd_def wf_tab_def list_all_length)

lemma wr_wf: "wf_tab t cn coln \<Longrightarrow> i \<le> cn \<Longrightarrow> j \<le> coln \<Longrightarrow> wr t (int i) (int j) v = Some (put t i j v)"
  by (simp add: wr_def put_def wf_tab_def list_all_length)

lemma wf_put: "wf_tab t cn coln \<Longrightarrow> wf_tab (put t i j v) cn coln"
proof -
  assume wf: "wf_tab t cn coln"
  have "length ((t[i := (t ! i)[j := v]]) ! n) = Suc coln" if "n < Suc cn" for n
  proof (cases "n = i")
    case True
    then show ?thesis using wf that by (simp add: wf_tab_def list_all_length)
  next
    case False
    then show ?thesis using wf that by (simp add: wf_tab_def list_all_length)
  qed
  then show ?thesis using wf by (simp add: put_def wf_tab_def list_all_length)
qed

lemma nth_put:
  "wf_tab t cn coln \<Longrightarrow> i \<le> cn \<Longrightarrow> j \<le> coln \<Longrightarrow> i' \<le> cn \<Longrightarrow> j' \<le> coln \<Longrightarrow>
   put t i j v ! i' ! j' = (if i' = i \<and> j' = j then v else t ! i' ! j')"
  by (auto simp: put_def wf_tab_def list_all_length nth_list_update)

lemma normalize_row_effect:
  "wf_tab t cn coln \<Longrightarrow> r \<le> cn \<Longrightarrow> distinct js \<Longrightarrow> \<forall>j\<in>set js. j \<le> coln \<Longrightarrow>
   \<exists>t'. normalize_row t (int r) p js = Some t' \<and> wf_tab t' cn coln \<and>
     (\<forall>i\<le>cn. \<forall>j\<le>coln. t' ! i ! j = (if i = r \<and> j \<in> set js then t ! i ! j / p else t ! i ! j))"
proof (induction js arbitrary: t)
  case Nil
  then show ?case by simp
next
  case (Cons j js)
  let ?t1 = "put t r j (t ! r ! j / p)"
  have wf1: "wf_tab ?t1 cn coln" using Cons.prems(1) by (rule wf_put)
  have j: "j \<le> coln" "j \<notin> set js" "distinct js" "\<forall>j\<in>set js. j \<le> coln"
    using Cons.prems by auto
  from Cons.IH [OF wf1 Cons.prems(2) j(3) j(4)]
  obtain t' where t': "normalize_row ?t1 (int r) p js = Some t'" "wf_tab t' cn coln"
    and ent: "\<forall>i\<le>cn. \<forall>k\<le>coln. t' ! i ! k = (if i = r \<and> k \<in> set js then ?t1 ! i ! k / p else ?t1 ! i ! k)"
    by blast
  have step: "normalize_row t (int r) p (j # js) = Some t'"
    using t'(1) rd_wf [OF Cons.prems(1,2) j(1)] wr_wf [OF Cons.prems(1,2) j(1)] by simp
  have "t' ! i ! k = (if i = r \<and> k \<in> set (j # js) then t ! i ! k / p else t ! i ! k)"
    if "i \<le> cn" "k \<le> coln" for i k
    using ent that j(2) nth_put [OF Cons.prems(1,2) j(1) that] by auto
  with step t'(2) show ?case by blast
qed

section \<open>The effect of each loop\<close>

lemma eliminate_cols_effect:
  "wf_tab t cn coln \<Longrightarrow> r \<le> cn \<Longrightarrow> i \<le> cn \<Longrightarrow> i \<noteq> r \<Longrightarrow> distinct js \<Longrightarrow>
   \<forall>j\<in>set js. j \<le> coln \<Longrightarrow>
   \<exists>t'. eliminate_cols t (int r) p2 i js = Some t' \<and> wf_tab t' cn coln \<and>
     (\<forall>i'\<le>cn. \<forall>j\<le>coln. t' ! i' ! j =
        (if i' = i \<and> j \<in> set js then p2 * t ! r ! j + t ! i ! j else t ! i' ! j))"
proof (induction js arbitrary: t)
  case Nil
  then show ?case by simp
next
  case (Cons j js)
  let ?t1 = "put t i j (p2 * t ! r ! j + t ! i ! j)"
  have wf1: "wf_tab ?t1 cn coln" using Cons.prems(1) by (rule wf_put)
  have j: "j \<le> coln" "j \<notin> set js" "distinct js" "\<forall>j\<in>set js. j \<le> coln"
    using Cons.prems by auto
  from Cons.IH [OF wf1 Cons.prems(2,3,4) j(3) j(4)]
  obtain t' where t': "eliminate_cols ?t1 (int r) p2 i js = Some t'" "wf_tab t' cn coln"
    and ent: "\<forall>i'\<le>cn. \<forall>k\<le>coln. t' ! i' ! k =
        (if i' = i \<and> k \<in> set js then p2 * ?t1 ! r ! k + ?t1 ! i ! k else ?t1 ! i' ! k)"
    by blast
  have step: "eliminate_cols t (int r) p2 i (j # js) = Some t'"
    using t'(1) rd_wf [OF Cons.prems(1,2) j(1)] rd_wf [OF Cons.prems(1,3) j(1)]
      wr_wf [OF Cons.prems(1,3) j(1)] by simp
  have "t' ! i' ! k = (if i' = i \<and> k \<in> set (j # js) then p2 * t ! r ! k + t ! i ! k else t ! i' ! k)"
    if "i' \<le> cn" "k \<le> coln" for i' k
    using ent that j(2) Cons.prems(4) nth_put [OF Cons.prems(1,3) j(1) that]
      nth_put [OF Cons.prems(1,3) j(1) Cons.prems(2) that(2)]
      nth_put [OF Cons.prems(1,3) j(1) Cons.prems(3) that(2)]
    by auto
  with step t'(2) show ?case by blast
qed

lemma eliminate_rows_effect:
  "wf_tab t cn coln \<Longrightarrow> r \<le> cn \<Longrightarrow> c \<le> coln \<Longrightarrow> distinct is \<Longrightarrow> \<forall>i\<in>set is. i \<le> cn \<Longrightarrow>
   \<exists>t'. eliminate_rows t coln (int r) (int c) is = Some t' \<and> wf_tab t' cn coln \<and>
     (\<forall>i\<le>cn. \<forall>j\<le>coln. t' ! i ! j =
        (if i \<in> set is \<and> i \<noteq> r then - (t ! i ! c) * t ! r ! j + t ! i ! j else t ! i ! j))"
proof (induction "is" arbitrary: t)
  case Nil
  then show ?case by simp
next
  case (Cons i "is")
  have i: "i \<le> cn" "i \<notin> set is" "distinct is" "\<forall>i\<in>set is. i \<le> cn"
    using Cons.prems by auto
  show ?case
  proof (cases "i = r")
    case True
    from Cons.IH [OF Cons.prems(1,2,3) i(3) i(4)] True show ?thesis by auto
  next
    case False
    have cols: "distinct [0..<Suc coln]" "\<forall>j\<in>set [0..<Suc coln]. j \<le> coln" by auto
    from eliminate_cols_effect [OF Cons.prems(1,2) i(1) False cols, of "- (t ! i ! c)"]
    obtain t1 where t1: "eliminate_cols t (int r) (- (t ! i ! c)) i [0..<Suc coln] = Some t1"
      "wf_tab t1 cn coln"
      and ent1: "\<forall>i'\<le>cn. \<forall>j\<le>coln. t1 ! i' ! j =
        (if i' = i then - (t ! i ! c) * t ! r ! j + t ! i ! j else t ! i' ! j)"
      by auto
    from Cons.IH [OF t1(2) Cons.prems(2,3) i(3) i(4)]
    obtain t' where t': "eliminate_rows t1 coln (int r) (int c) is = Some t'" "wf_tab t' cn coln"
      and ent: "\<forall>i'\<le>cn. \<forall>j\<le>coln. t' ! i' ! j =
        (if i' \<in> set is \<and> i' \<noteq> r then - (t1 ! i' ! c) * t1 ! r ! j + t1 ! i' ! j else t1 ! i' ! j)"
      by blast
    have step: "eliminate_rows t coln (int r) (int c) (i # is) = Some t'"
      using False t1(1) t'(1) rd_wf [OF Cons.prems(1) i(1) Cons.prems(3)] by simp
    have "t' ! i' ! j =
        (if i' \<in> set (i # is) \<and> i' \<noteq> r then - (t ! i' ! c) * t ! r ! j + t ! i' ! j else t ! i' ! j)"
      if "i' \<le> cn" "j \<le> coln" for i' j
      using ent ent1 that i(1,2) False Cons.prems(2,3) by auto
    with step t'(2) show ?thesis by blast
  qed
qed

lemma objective_update_effect:
  "wf_tab t cn coln \<Longrightarrow> r \<le> cn \<Longrightarrow> r \<noteq> cn \<Longrightarrow> distinct js \<Longrightarrow> \<forall>j\<in>set js. j \<le> coln \<Longrightarrow>
   \<exists>t' mx' k. objective_update t cn coln (int r) p3 js (mx, k0) = Some (t', mx', k) \<and>
     wf_tab t' cn coln \<and>
     (\<forall>i\<le>cn. \<forall>j\<le>coln. t' ! i ! j =
        (if i = cn \<and> j \<in> set js then p3 * t ! r ! j + t ! cn ! j else t ! i ! j))"
proof (induction js arbitrary: t mx k0)
  case Nil
  then show ?case by simp
next
  case (Cons j js)
  let ?v = "p3 * t ! r ! j + t ! cn ! j"
  let ?t1 = "put t cn j ?v"
  have wf1: "wf_tab ?t1 cn coln" using Cons.prems(1) by (rule wf_put)
  have j: "j \<le> coln" "j \<notin> set js" "distinct js" "\<forall>j\<in>set js. j \<le> coln"
    using Cons.prems by auto
  have v: "rd ?t1 (int cn) (int j) = Some ?v"
    using rd_wf [OF wf1 order_refl j(1)] nth_put [OF Cons.prems(1) order_refl j(1) order_refl j(1)]
    by simp
  define mx1 where "mx1 = (if j < coln \<and> ?v < 0
       then (if val mx < - ?v then \<lparr>val = - ?v, index = int j\<rparr> else mx) else mx)"
  define k1 where "k1 = (if j < coln \<and> ?v < 0 then k0 + 1 else k0)"
  from Cons.IH [OF wf1 Cons.prems(2,3) j(3) j(4), of mx1 k1]
  obtain t' mx' k where t': "objective_update ?t1 cn coln (int r) p3 js (mx1, k1) = Some (t', mx', k)"
    "wf_tab t' cn coln"
    and ent: "\<forall>i\<le>cn. \<forall>l\<le>coln. t' ! i ! l =
        (if i = cn \<and> l \<in> set js then p3 * ?t1 ! r ! l + ?t1 ! cn ! l else ?t1 ! i ! l)"
    by blast
  have unf: "objective_update t cn coln (int r) p3 (j # js) (mx, k0) =
      objective_update ?t1 cn coln (int r) p3 js (mx1, k1)"
    using v rd_wf [OF Cons.prems(1,2) j(1)] rd_wf [OF Cons.prems(1) order_refl j(1)]
      wr_wf [OF Cons.prems(1) order_refl j(1)]
    by (simp add: mx1_def k1_def)
  have step: "objective_update t cn coln (int r) p3 (j # js) (mx, k0) = Some (t', mx', k)"
    using unf t'(1) by simp
  have "t' ! i ! l = (if i = cn \<and> l \<in> set (j # js) then p3 * t ! r ! l + t ! cn ! l else t ! i ! l)"
    if "i \<le> cn" "l \<le> coln" for i l
    using ent that j(2) Cons.prems(3) nth_put [OF Cons.prems(1) order_refl j(1) that]
      nth_put [OF Cons.prems(1) order_refl j(1) Cons.prems(2) that(2)]
      nth_put [OF Cons.prems(1) order_refl j(1) order_refl that(2)]
    by auto
  with step t'(2) show ?case by blast
qed

lemma objective_update_scan:
  "wf_tab t cn coln \<Longrightarrow> r \<le> cn \<Longrightarrow> r \<noteq> cn \<Longrightarrow> distinct js \<Longrightarrow> \<forall>j\<in>set js. j \<le> coln \<Longrightarrow>
   objective_update t cn coln (int r) p3 js (mx, k0) = Some (t', mx', k) \<Longrightarrow>
   val mx \<le> val mx' \<and>
   (\<forall>j\<in>set js. j < coln \<and> p3 * t ! r ! j + t ! cn ! j < 0 \<longrightarrow>
        - (p3 * t ! r ! j + t ! cn ! j) \<le> val mx') \<and>
   (mx' = mx \<or> (\<exists>j\<in>set js. j < coln \<and> p3 * t ! r ! j + t ! cn ! j < 0 \<and>
        val mx < - (p3 * t ! r ! j + t ! cn ! j) \<and>
        mx' = \<lparr>val = - (p3 * t ! r ! j + t ! cn ! j), index = int j\<rparr>)) \<and>
   k = k0 + length (filter (\<lambda>j. j < coln \<and> p3 * t ! r ! j + t ! cn ! j < 0) js)"
proof (induction js arbitrary: t mx k0)
  case Nil
  then show ?case by simp
next
  case (Cons j js)
  define N where "N = (\<lambda>l. p3 * t ! r ! l + t ! cn ! l)"
  let ?t1 = "put t cn j (N j)"
  have wf1: "wf_tab ?t1 cn coln" using Cons.prems(1) by (rule wf_put)
  have j: "j \<le> coln" "j \<notin> set js" "distinct js" "\<forall>j\<in>set js. j \<le> coln"
    using Cons.prems by auto
  have v: "rd ?t1 (int cn) (int j) = Some (N j)"
    using rd_wf [OF wf1 order_refl j(1)] nth_put [OF Cons.prems(1) order_refl j(1) order_refl j(1)]
    by simp
  define mx1 where "mx1 = (if j < coln \<and> N j < 0
       then (if val mx < - N j then \<lparr>val = - N j, index = int j\<rparr> else mx) else mx)"
  define k1 where "k1 = (if j < coln \<and> N j < 0 then k0 + 1 else k0)"
  have unf: "objective_update t cn coln (int r) p3 (j # js) (mx, k0) =
      objective_update ?t1 cn coln (int r) p3 js (mx1, k1)"
    using v rd_wf [OF Cons.prems(1,2) j(1)] rd_wf [OF Cons.prems(1) order_refl j(1)]
      wr_wf [OF Cons.prems(1) order_refl j(1)]
    unfolding N_def by (simp add: mx1_def k1_def N_def)
  have step: "objective_update ?t1 cn coln (int r) p3 js (mx1, k1) = Some (t', mx', k)"
    using unf Cons.prems(6) by simp
  have N1: "p3 * ?t1 ! r ! l + ?t1 ! cn ! l = N l" if "l \<in> set js" for l
  proof -
    have l: "l \<le> coln" "l \<noteq> j" using that j by auto
    show ?thesis
      using l Cons.prems(3) nth_put [OF Cons.prems(1) order_refl j(1) Cons.prems(2) l(1)]
        nth_put [OF Cons.prems(1) order_refl j(1) order_refl l(1)]
      by (simp add: N_def)
  qed
  from Cons.IH [OF wf1 Cons.prems(2,3) j(3) j(4) step]
  have ih: "val mx1 \<le> val mx'"
    "\<forall>l\<in>set js. l < coln \<and> N l < 0 \<longrightarrow> - N l \<le> val mx'"
    "mx' = mx1 \<or> (\<exists>l\<in>set js. l < coln \<and> N l < 0 \<and> val mx1 < - N l \<and>
        mx' = \<lparr>val = - N l, index = int l\<rparr>)"
    "k = k1 + length (filter (\<lambda>l. l < coln \<and> N l < 0) js)"
    using N1 by (simp_all cong: filter_cong ball_cong bex_cong)
  have m1: "val mx \<le> val mx1" by (simp add: mx1_def)
  have m2: "j < coln \<and> N j < 0 \<longrightarrow> - N j \<le> val mx1" by (simp add: mx1_def)
  have m3: "mx1 = mx \<or> (j < coln \<and> N j < 0 \<and> val mx < - N j \<and> mx1 = \<lparr>val = - N j, index = int j\<rparr>)"
    by (simp add: mx1_def)
  have A: "val mx \<le> val mx'" using m1 ih(1) by simp
  have B: "\<forall>l\<in>set (j # js). l < coln \<and> N l < 0 \<longrightarrow> - N l \<le> val mx'"
    using m2 ih(1,2) by auto
  have C: "mx' = mx \<or> (\<exists>l\<in>set (j # js). l < coln \<and> N l < 0 \<and> val mx < - N l \<and>
        mx' = \<lparr>val = - N l, index = int l\<rparr>)"
  proof (cases "mx' = mx1")
    case True
    then show ?thesis using m3 by auto
  next
    case False
    then obtain l where "l \<in> set js" "l < coln" "N l < 0" "val mx1 < - N l"
      "mx' = \<lparr>val = - N l, index = int l\<rparr>" using ih(3) by blast
    then show ?thesis using m1 by auto
  qed
  have D: "k = k0 + length (filter (\<lambda>l. l < coln \<and> N l < 0) (j # js))"
    using ih(4) by (simp add: k1_def)
  show ?case using A B C D unfolding N_def by blast
qed

lemma hless_asym: "hless a b \<Longrightarrow> \<not> hless b a"
  by (cases a; cases b) auto

lemma hless_le_trans: "hless a b \<Longrightarrow> \<not> hless c b \<Longrightarrow> hless a c"
  by (cases a; cases b; cases c) auto

lemma ratio_test_effect:
  "wf_tab t cn coln \<Longrightarrow> c \<le> coln \<Longrightarrow> \<forall>i\<in>set is. i \<le> cn \<Longrightarrow>
   \<exists>mn' cnt'. ratio_test t coln (int c) is (mn, cnt) = Some (mn', cnt') \<and>
     cnt' = cnt + length (filter (\<lambda>i. \<not> 0 < t ! i ! c) is) \<and>
     \<not> hless (val mn) (val mn') \<and>
     (\<forall>i\<in>set is. 0 < t ! i ! c \<longrightarrow> \<not> hless (Fin (t ! i ! coln / t ! i ! c)) (val mn')) \<and>
     (mn' = mn \<or> (\<exists>i\<in>set is. 0 < t ! i ! c \<and> hless (val mn') (val mn) \<and>
         mn' = \<lparr>val = Fin (t ! i ! coln / t ! i ! c), index = int i\<rparr>))"
proof (induction "is" arbitrary: mn cnt)
  case Nil
  then show ?case by (cases "val mn") auto
next
  case (Cons i "is")
  define p where "p = t ! i ! coln / t ! i ! c"
  define mn1 where "mn1 = (if 0 < t ! i ! c
      then (if hless (Fin p) (val mn) then \<lparr>val = Fin p, index = int i\<rparr> else mn) else mn)"
  define cnt1 where "cnt1 = (if 0 < t ! i ! c then cnt else cnt + 1)"
  have i: "i \<le> cn" "\<forall>i\<in>set is. i \<le> cn" using Cons.prems by auto
  have unf: "ratio_test t coln (int c) (i # is) (mn, cnt) = ratio_test t coln (int c) is (mn1, cnt1)"
    using rd_wf [OF Cons.prems(1) i(1) Cons.prems(2)] rd_wf [OF Cons.prems(1) i(1) order_refl]
    by (simp add: mn1_def cnt1_def p_def)
  from Cons.IH [OF Cons.prems(1,2) i(2), of mn1 cnt1]
  obtain mn' cnt' where r: "ratio_test t coln (int c) is (mn1, cnt1) = Some (mn', cnt')"
    and ih: "cnt' = cnt1 + length (filter (\<lambda>i. \<not> 0 < t ! i ! c) is)"
      "\<not> hless (val mn1) (val mn')"
      "\<forall>i\<in>set is. 0 < t ! i ! c \<longrightarrow> \<not> hless (Fin (t ! i ! coln / t ! i ! c)) (val mn')"
      "mn' = mn1 \<or> (\<exists>i\<in>set is. 0 < t ! i ! c \<and> hless (val mn') (val mn1) \<and>
         mn' = \<lparr>val = Fin (t ! i ! coln / t ! i ! c), index = int i\<rparr>)"
    by blast
  have irr: "\<not> hless a a" for a by (cases a) auto
  have m1: "\<not> hless (val mn) (val mn1)"
    using irr hless_asym by (auto simp: mn1_def)
  have m2: "0 < t ! i ! c \<longrightarrow> \<not> hless (Fin p) (val mn1)"
    using irr by (auto simp: mn1_def)
  have m3: "mn1 = mn \<or> (0 < t ! i ! c \<and> hless (val mn1) (val mn) \<and> mn1 = \<lparr>val = Fin p, index = int i\<rparr>)"
    by (auto simp: mn1_def)
  have A: "\<not> hless (val mn) (val mn')"
    using m1 ih(2) hless_total by blast
  have B: "\<forall>l\<in>set (i # is). 0 < t ! l ! c \<longrightarrow> \<not> hless (Fin (t ! l ! coln / t ! l ! c)) (val mn')"
    using m2 ih(2,3) hless_total [of "Fin p" "val mn1" "val mn'"] by (auto simp: p_def)
  have C: "mn' = mn \<or> (\<exists>l\<in>set (i # is). 0 < t ! l ! c \<and> hless (val mn') (val mn) \<and>
         mn' = \<lparr>val = Fin (t ! l ! coln / t ! l ! c), index = int l\<rparr>)"
  proof (cases "mn' = mn1")
    case True
    then show ?thesis using m3 by (auto simp: p_def)
  next
    case False
    then obtain l where l: "l \<in> set is" "0 < t ! l ! c" "hless (val mn') (val mn1)"
      "mn' = \<lparr>val = Fin (t ! l ! coln / t ! l ! c), index = int l\<rparr>" using ih(4) by blast
    have "hless (val mn') (val mn)" using l(3) m1 by (rule hless_le_trans)
    then show ?thesis using l by auto
  qed
  have D: "cnt' = cnt + length (filter (\<lambda>i. \<not> 0 < t ! i ! c) (i # is))"
    using ih(1) by (simp add: cnt1_def)
  show ?case using unf r A B C D by simp
qed

lemma ratio_test_wild:
  "wf_tab t cn coln \<Longrightarrow> \<not> (0 \<le> c \<and> nat c \<le> coln) \<Longrightarrow> is \<noteq> [] \<Longrightarrow> \<forall>i\<in>set is. i \<le> cn \<Longrightarrow>
   ratio_test t coln c is acc = None"
proof -
  assume wf: "wf_tab t cn coln" and c: "\<not> (0 \<le> c \<and> nat c \<le> coln)" and ne: "is \<noteq> []"
  obtain i is' where "is": "is = i # is'" using ne by (cases "is") auto
  have "rd t (int i) c = None" using rd_None_iff [OF wf, of "int i" c] c by simp
  then show ?thesis unfolding "is" by (cases acc) simp
qed

lemma initial_scan_effect:
  "wf_tab t cn coln \<Longrightarrow> \<forall>j\<in>set js. j \<le> coln \<Longrightarrow>
   \<exists>mx'. initial_scan t cn js mx = Some mx' \<and> val mx \<le> val mx' \<and>
     (\<forall>j\<in>set js. t ! cn ! j < 0 \<longrightarrow> - (t ! cn ! j) \<le> val mx') \<and>
     (mx' = mx \<or> (\<exists>j\<in>set js. t ! cn ! j < 0 \<and> val mx < - (t ! cn ! j) \<and>
         mx' = \<lparr>val = - (t ! cn ! j), index = int j\<rparr>))"
proof (induction js arbitrary: mx)
  case Nil
  then show ?case by simp
next
  case (Cons j js)
  define v where "v = t ! cn ! j"
  define mx1 where "mx1 = (if v < 0 \<and> val mx < - v then \<lparr>val = - v, index = int j\<rparr> else mx)"
  have j: "j \<le> coln" "\<forall>j\<in>set js. j \<le> coln" using Cons.prems by auto
  have unf: "initial_scan t cn (j # js) mx = initial_scan t cn js mx1"
    using rd_wf [OF Cons.prems(1) order_refl j(1)] by (simp add: mx1_def v_def)
  from Cons.IH [OF Cons.prems(1) j(2), of mx1]
  obtain mx' where r: "initial_scan t cn js mx1 = Some mx'"
    and ih: "val mx1 \<le> val mx'"
      "\<forall>j\<in>set js. t ! cn ! j < 0 \<longrightarrow> - (t ! cn ! j) \<le> val mx'"
      "mx' = mx1 \<or> (\<exists>j\<in>set js. t ! cn ! j < 0 \<and> val mx1 < - (t ! cn ! j) \<and>
         mx' = \<lparr>val = - (t ! cn ! j), index = int j\<rparr>)"
    by blast
  have m1: "val mx \<le> val mx1" by (simp add: mx1_def)
  have m2: "v < 0 \<longrightarrow> - v \<le> val mx1" by (simp add: mx1_def)
  have m3: "mx1 = mx \<or> (v < 0 \<and> val mx < - v \<and> mx1 = \<lparr>val = - v, index = int j\<rparr>)"
    by (simp add: mx1_def)
  have A: "val mx \<le> val mx'" using m1 ih(1) by simp
  have B: "\<forall>l\<in>set (j # js). t ! cn ! l < 0 \<longrightarrow> - (t ! cn ! l) \<le> val mx'"
    using m2 ih(1,2) by (auto simp: v_def)
  have C: "mx' = mx \<or> (\<exists>l\<in>set (j # js). t ! cn ! l < 0 \<and> val mx < - (t ! cn ! l) \<and>
         mx' = \<lparr>val = - (t ! cn ! l), index = int l\<rparr>)"
  proof (cases "mx' = mx1")
    case True
    then show ?thesis using m3 by (auto simp: v_def)
  next
    case False
    then obtain l where "l \<in> set js" "t ! cn ! l < 0" "val mx1 < - (t ! cn ! l)"
      "mx' = \<lparr>val = - (t ! cn ! l), index = int l\<rparr>" using ih(3) by blast
    then show ?thesis using m1 by auto
  qed
  show ?case using unf r A B C by simp
qed

lemma row_eliminator_effect:
  assumes wf: "wf_tab t cn coln" and r: "r < cn" and c: "c \<le> coln"
  shows "\<exists>t' mx' k. row_eliminator t cn coln (int r) (int c) mx = Some (t', mx', k) \<and>
     wf_tab t' cn coln \<and> pivoted t cn coln r c t' \<and>
     val mx \<le> val mx' \<and>
     (\<forall>j<coln. t' ! cn ! j < 0 \<longrightarrow> - (t' ! cn ! j) \<le> val mx') \<and>
     (mx' = mx \<or> (\<exists>j<coln. t' ! cn ! j < 0 \<and> val mx < - (t' ! cn ! j) \<and>
        mx' = \<lparr>val = - (t' ! cn ! j), index = int j\<rparr>)) \<and>
     k = length (filter (\<lambda>j. t' ! cn ! j < 0) [0..<coln])"
proof -
  have r': "r \<le> cn" "r \<noteq> cn" using r by auto
  have cols: "distinct [0..<Suc coln]" "\<forall>j\<in>set [0..<Suc coln]. j \<le> coln" by auto
  have rows: "distinct [0..<cn]" "\<forall>i\<in>set [0..<cn]. i \<le> cn" by auto
  define p where "p = t ! r ! c"
  define p3 where "p3 = - (t ! cn ! c)"
  from normalize_row_effect [OF wf r'(1) cols, of p]
  obtain t1 where t1: "normalize_row t (int r) p [0..<Suc coln] = Some t1" "wf_tab t1 cn coln"
    and e1: "\<forall>i\<le>cn. \<forall>j\<le>coln. t1 ! i ! j = (if i = r then t ! i ! j / p else t ! i ! j)"
    by auto
  from eliminate_rows_effect [OF t1(2) r'(1) c rows]
  obtain t2 where t2: "eliminate_rows t1 coln (int r) (int c) [0..<cn] = Some t2" "wf_tab t2 cn coln"
    and e2: "\<forall>i\<le>cn. \<forall>j\<le>coln. t2 ! i ! j =
        (if i < cn \<and> i \<noteq> r then - (t1 ! i ! c) * t1 ! r ! j + t1 ! i ! j else t1 ! i ! j)"
    by auto
  from objective_update_effect [OF t2(2) r' cols, of p3 mx 0]
  obtain t' mx' k where t': "objective_update t2 cn coln (int r) p3 [0..<Suc coln] (mx, 0) = Some (t', mx', k)"
    "wf_tab t' cn coln"
    and e3: "\<forall>i\<le>cn. \<forall>j\<le>coln. t' ! i ! j = (if i = cn then p3 * t2 ! r ! j + t2 ! cn ! j else t2 ! i ! j)"
    by auto
  define N where "N j = p3 * t2 ! r ! j + t2 ! cn ! j" for j
  have N: "N j = t' ! cn ! j" if "j \<le> coln" for j
    using e3 that by (simp add: N_def)
  note raw = objective_update_scan [OF t2(2) r' cols t'(1), folded N_def]
  have scan1: "val mx \<le> val mx'" using raw by blast
  have s2: "\<forall>j<coln. t' ! cn ! j < 0 \<longrightarrow> - (t' ! cn ! j) \<le> val mx'"
  proof (intro allI impI)
    fix j assume j: "j < coln" "t' ! cn ! j < 0"
    then have "j \<in> set [0..<Suc coln]" "N j < 0" using N [of j] by auto
    then have "- N j \<le> val mx'" using raw j(1) by blast
    then show "- (t' ! cn ! j) \<le> val mx'" using N [of j] j(1) by simp
  qed
  have s3: "mx' = mx \<or> (\<exists>j<coln. t' ! cn ! j < 0 \<and> val mx < - (t' ! cn ! j) \<and>
        mx' = \<lparr>val = - (t' ! cn ! j), index = int j\<rparr>)"
  proof (cases "mx' = mx")
    case True
    then show ?thesis by simp
  next
    case False
    then obtain j where j: "j < coln" "N j < 0" "val mx < - N j" "mx' = \<lparr>val = - N j, index = int j\<rparr>"
      using raw by blast
    then show ?thesis using N [of j] by auto
  qed
  have "filter (\<lambda>j. j < coln \<and> N j < 0) [0..<Suc coln] = filter (\<lambda>j. t' ! cn ! j < 0) [0..<coln]"
  proof -
    have "filter (\<lambda>j. j < coln \<and> N j < 0) [0..<coln] = filter (\<lambda>j. t' ! cn ! j < 0) [0..<coln]"
      by (rule filter_cong) (auto simp: N)
    then show ?thesis by simp
  qed
  moreover have "k = 0 + length (filter (\<lambda>j. j < coln \<and> N j < 0) [0..<Suc coln])"
    using raw by blast
  ultimately have s4: "k = length (filter (\<lambda>j. t' ! cn ! j < 0) [0..<coln])"
    by simp
  have run: "row_eliminator t cn coln (int r) (int c) mx = Some (t', mx', k)"
    using rd_wf [OF wf r'(1) c] rd_wf [OF wf order_refl c] t1(1) t2(1) t'(1)
    by (simp add: row_eliminator_def p_def p3_def)
  have rowr: "t' ! r ! j = t ! r ! j / t ! r ! c" if "j \<le> coln" for j
    using e1 e2 e3 that r' by (simp add: p_def)
  have rowi: "t' ! i ! j = t ! i ! j + (- (t ! i ! c)) * (t ! r ! j / t ! r ! c)"
    if "i \<le> cn" "i \<noteq> r" "j \<le> coln" for i j
  proof (cases "i = cn")
    case True
    then show ?thesis using e1 e2 e3 that r' c by (simp add: p_def p3_def)
  next
    case False
    then show ?thesis using e1 e2 e3 that r' c by (simp add: p_def)
  qed
  have piv: "pivoted t cn coln r c t'"
    using rowr rowi by (simp add: pivoted_def)
  show ?thesis using run t'(2) piv scan1 s2 s3 s4 by blast
qed

section \<open>One pass of the loop body\<close>

lemma length_filter_all: "length (filter P xs) = length xs \<longleftrightarrow> (\<forall>x\<in>set xs. P x)"
proof (induction xs)
  case Nil
  then show ?case by simp
next
  case (Cons x xs)
  have le: "length (filter P xs) \<le> length xs" by (rule length_filter_le)
  show ?case
  proof (cases "P x")
    case True
    then show ?thesis using Cons by simp
  next
    case False
    have "length (filter P xs) \<noteq> Suc (length xs)" using le by arith
    then show ?thesis using False by simp
  qed
qed

lemma iteration_NoSolution:
  assumes inv: "loop_inv s" and c: "index (maxC s) = int c" "c \<le> colNumb s"
    and none: "\<forall>i<constraintNumb s. \<not> 0 < tableau s ! i ! c"
  shows "iteration s = Inl NoSolution"
proof -
  have wf: "wf_tab (tableau s) (constraintNumb s) (colNumb s)" using inv by (simp add: loop_inv_def)
  have rows: "\<forall>i\<in>set [0..<constraintNumb s]. i \<le> constraintNumb s" by auto
  from ratio_test_effect [OF wf c(2) rows, of "minC s" "count s"]
  obtain mn' cnt' where rt: "ratio_test (tableau s) (colNumb s) (int c) [0..<constraintNumb s]
      (minC s, count s) = Some (mn', cnt')"
    and cnt: "cnt' = count s + length (filter (\<lambda>i. \<not> 0 < tableau s ! i ! c) [0..<constraintNumb s])"
    by blast
  have "length (filter (\<lambda>i. \<not> 0 < tableau s ! i ! c) [0..<constraintNumb s]) = length [0..<constraintNumb s]"
    unfolding length_filter_all using none by simp
  then have "cnt' = constraintNumb s" using cnt inv by (simp add: loop_inv_def)
  then show ?thesis using rt c(1) by (simp add: iteration_def)
qed

lemma iteration_OutOfBounds:
  assumes inv: "loop_inv s" and c: "\<not> (0 \<le> index (maxC s) \<and> nat (index (maxC s)) \<le> colNumb s)"
    and rows: "0 < constraintNumb s"
  shows "iteration s = Inl OutOfBounds"
proof -
  have wf: "wf_tab (tableau s) (constraintNumb s) (colNumb s)" using inv by (simp add: loop_inv_def)
  have "ratio_test (tableau s) (colNumb s) (index (maxC s)) [0..<constraintNumb s] (minC s, count s) = None"
    using rows by (intro ratio_test_wild [OF wf c]) auto
  then show ?thesis by (simp add: iteration_def)
qed

lemma iteration_pivot:
  assumes inv: "loop_inv s" and c: "index (maxC s) = int c" "c \<le> colNumb s"
    and some: "\<exists>i<constraintNumb s. 0 < tableau s ! i ! c"
  shows "\<exists>s' r. iteration s = Inr s' \<and> r < constraintNumb s \<and> 0 < tableau s ! r ! c \<and>
     (\<forall>i<constraintNumb s. 0 < tableau s ! i ! c \<longrightarrow>
        tableau s ! r ! colNumb s / tableau s ! r ! c \<le> tableau s ! i ! colNumb s / tableau s ! i ! c) \<and>
     pivoted (tableau s) (constraintNumb s) (colNumb s) r c (tableau s') \<and>
     loop_inv s' \<and> constraintNumb s' = constraintNumb s \<and> colNumb s' = colNumb s \<and>
     ni s' = ni s + 1 \<and> index (minC s') = int r \<and>
     conta s' = length (filter (\<lambda>j. tableau s' ! constraintNumb s ! j < 0) [0..<colNumb s]) \<and>
     (conta s' \<noteq> 0 \<longrightarrow> (\<exists>c'<colNumb s. index (maxC s') = int c' \<and>
         tableau s' ! constraintNumb s ! c' < 0 \<and>
         (\<forall>j<colNumb s. tableau s' ! constraintNumb s ! c' \<le> tableau s' ! constraintNumb s ! j)))"
proof -
  define t where "t = tableau s"
  define cn where "cn = constraintNumb s"
  define coln where "coln = colNumb s"
  have wf: "wf_tab t cn coln" and mx0: "val (maxC s) = 0" and mn0: "val (minC s) = HUGE_VAL"
    and cnt0: "count s = 0"
    using inv by (simp_all add: loop_inv_def t_def cn_def coln_def)
  have c': "c \<le> coln" using c(2) by (simp add: coln_def)
  have rows: "\<forall>i\<in>set [0..<cn]. i \<le> cn" by auto
  from ratio_test_effect [OF wf c' rows, of "minC s" "count s"]
  obtain mn' cnt' where rt: "ratio_test t coln (int c) [0..<cn] (minC s, count s) = Some (mn', cnt')"
    and cnt: "cnt' = count s + length (filter (\<lambda>i. \<not> 0 < t ! i ! c) [0..<cn])"
    and low: "\<forall>i\<in>set [0..<cn]. 0 < t ! i ! c \<longrightarrow> \<not> hless (Fin (t ! i ! coln / t ! i ! c)) (val mn')"
    and pick: "mn' = minC s \<or> (\<exists>i\<in>set [0..<cn]. 0 < t ! i ! c \<and> hless (val mn') (val (minC s)) \<and>
         mn' = \<lparr>val = Fin (t ! i ! coln / t ! i ! c), index = int i\<rparr>)"
    by blast
  obtain i0 where i0: "i0 < cn" "0 < t ! i0 ! c" using some by (auto simp: t_def cn_def)
  have "cnt' \<noteq> cn"
  proof
    assume "cnt' = cn"
    then have "length (filter (\<lambda>i. \<not> 0 < t ! i ! c) [0..<cn]) = length [0..<cn]"
      using cnt cnt0 by simp
    then have "\<forall>i\<in>set [0..<cn]. \<not> 0 < t ! i ! c" unfolding length_filter_all .
    then show False using i0 by auto
  qed
  have "mn' \<noteq> minC s"
  proof
    assume "mn' = minC s"
    then have "hless (Fin (t ! i0 ! coln / t ! i0 ! c)) (val mn')" using mn0 by simp
    then show False using low i0 by auto
  qed
  then obtain r where r: "r < cn" "0 < t ! r ! c"
    and mn': "mn' = \<lparr>val = Fin (t ! r ! coln / t ! r ! c), index = int r\<rparr>"
    using pick by auto
  have minr: "t ! r ! coln / t ! r ! c \<le> t ! i ! coln / t ! i ! c" if "i < cn" "0 < t ! i ! c" for i
    using low that by (auto simp: mn')
  from row_eliminator_effect [OF wf r(1) c', of "maxC s"]
  obtain t' mx' k where re: "row_eliminator t cn coln (int r) (int c) (maxC s) = Some (t', mx', k)"
    and wf': "wf_tab t' cn coln" and piv: "pivoted t cn coln r c t'"
    and s2: "\<forall>j<coln. t' ! cn ! j < 0 \<longrightarrow> - (t' ! cn ! j) \<le> val mx'"
    and s3: "mx' = maxC s \<or> (\<exists>j<coln. t' ! cn ! j < 0 \<and> val (maxC s) < - (t' ! cn ! j) \<and>
        mx' = \<lparr>val = - (t' ! cn ! j), index = int j\<rparr>)"
    and s4: "k = length (filter (\<lambda>j. t' ! cn ! j < 0) [0..<coln])"
    by blast
  define s' where "s' = s\<lparr>tableau := t', count := 0, conta := k, ni := ni s + 1,
                        maxC := mx'\<lparr>val := 0\<rparr>, minC := mn'\<lparr>val := HUGE_VAL\<rparr>\<rparr>"
  have it: "iteration s = Inr s'"
    using rt re \<open>cnt' \<noteq> cn\<close> c(1)
    by (simp add: iteration_def s'_def t_def [symmetric] cn_def [symmetric] coln_def [symmetric] mn')
  have inv': "loop_inv s'"
    using wf' by (simp add: loop_inv_def s'_def cn_def coln_def)
  have next_col: "\<exists>c'<coln. index (maxC s') = int c' \<and> t' ! cn ! c' < 0 \<and>
         (\<forall>j<coln. t' ! cn ! c' \<le> t' ! cn ! j)" if "conta s' \<noteq> 0"
  proof -
    have "filter (\<lambda>j. t' ! cn ! j < 0) [0..<coln] \<noteq> []" using that s4 by (simp add: s'_def)
    then obtain j where j: "j < coln" "t' ! cn ! j < 0"
      by (auto simp: filter_empty_conv)
    then have "0 < val mx'" using s2 by fastforce
    then have "mx' \<noteq> maxC s" using mx0 by auto
    then obtain c' where c': "c' < coln" "t' ! cn ! c' < 0" "mx' = \<lparr>val = - (t' ! cn ! c'), index = int c'\<rparr>"
      using s3 by blast
    have "t' ! cn ! c' \<le> t' ! cn ! l" if "l < coln" for l
    proof (cases "t' ! cn ! l < 0")
      case True
      then show ?thesis using s2 that c'(3) by fastforce
    next
      case False
      then show ?thesis using c'(2) by simp
    qed
    then show ?thesis using c' by (auto simp: s'_def)
  qed
  show ?thesis
    using it r minr piv inv' next_col s4
    by (intro exI [of _ s'] exI [of _ r])
       (simp add: s'_def t_def [symmetric] cn_def [symmetric] coln_def [symmetric] mn')
qed

lemma feasibleD: "feasible t cn coln \<Longrightarrow> i < cn \<Longrightarrow> 0 \<le> t ! i ! coln"
  by (simp add: feasible_def list_all_iff)

lemma feasibleI: "(\<And>i. i < cn \<Longrightarrow> 0 \<le> t ! i ! coln) \<Longrightarrow> feasible t cn coln"
  by (simp add: feasible_def list_all_iff)

lemma iteration_Inr:
  assumes inv: "loop_inv s" and it: "iteration s = Inr s'"
  shows "\<exists>c r. index (maxC s) = int c \<and> c \<le> colNumb s \<and>
     r < constraintNumb s \<and> 0 < tableau s ! r ! c \<and>
     (\<forall>i<constraintNumb s. 0 < tableau s ! i ! c \<longrightarrow>
        tableau s ! r ! colNumb s / tableau s ! r ! c \<le> tableau s ! i ! colNumb s / tableau s ! i ! c) \<and>
     pivoted (tableau s) (constraintNumb s) (colNumb s) r c (tableau s') \<and>
     loop_inv s' \<and> constraintNumb s' = constraintNumb s \<and> colNumb s' = colNumb s \<and>
     ni s' = ni s + 1 \<and> index (minC s') = int r \<and>
     conta s' = length (filter (\<lambda>j. tableau s' ! constraintNumb s ! j < 0) [0..<colNumb s]) \<and>
     (conta s' \<noteq> 0 \<longrightarrow> (\<exists>c'<colNumb s. index (maxC s') = int c' \<and>
         tableau s' ! constraintNumb s ! c' < 0 \<and>
         (\<forall>j<colNumb s. tableau s' ! constraintNumb s ! c' \<le> tableau s' ! constraintNumb s ! j)))"
proof -
  have rows: "0 < constraintNumb s"
  proof (rule ccontr)
    assume "\<not> 0 < constraintNumb s"
    then have "iteration s = Inl NoSolution"
      using inv by (simp add: iteration_def loop_inv_def)
    then show False using it by simp
  qed
  have col: "0 \<le> index (maxC s) \<and> nat (index (maxC s)) \<le> colNumb s"
    using iteration_OutOfBounds [OF inv _ rows] it by auto
  define c where "c = nat (index (maxC s))"
  have c: "index (maxC s) = int c" "c \<le> colNumb s" using col by (simp_all add: c_def)
  have some: "\<exists>i<constraintNumb s. 0 < tableau s ! i ! c"
    using iteration_NoSolution [OF inv c] it by auto
  from iteration_pivot [OF inv c some] it c show ?thesis by auto
qed

lemma pivoted_feasible:
  assumes piv: "pivoted t cn coln r c t'" and feas: "feasible t cn coln"
    and r: "r < cn" "0 < t ! r ! c"
    and minr: "\<forall>i<cn. 0 < t ! i ! c \<longrightarrow> t ! r ! coln / t ! r ! c \<le> t ! i ! coln / t ! i ! c"
  shows "feasible t' cn coln"
proof (rule feasibleI)
  fix i assume i: "i < cn"
  define q where "q = t ! r ! coln / t ! r ! c"
  have q: "0 \<le> q" using feasibleD [OF feas r(1)] r(2) by (simp add: q_def)
  show "0 \<le> t' ! i ! coln"
  proof (cases "i = r")
    case True
    then show ?thesis using piv q by (simp add: pivoted_def q_def)
  next
    case False
    then have eq: "t' ! i ! coln = t ! i ! coln + (- (t ! i ! c)) * q"
      using piv i by (simp add: pivoted_def q_def)
    show ?thesis
    proof (cases "0 < t ! i ! c")
      case True
      then have "q \<le> t ! i ! coln / t ! i ! c" using minr i by (simp add: q_def)
      then have "q * t ! i ! c \<le> t ! i ! coln" using True by (simp add: pos_le_divide_eq)
      then show ?thesis using eq by (simp add: mult.commute)
    next
      case False
      then have "0 \<le> - (t ! i ! c)" by simp
      then have "0 \<le> (- (t ! i ! c)) * q" using q by (rule mult_nonneg_nonneg)
      then show ?thesis using eq feasibleD [OF feas i] by linarith
    qed
  qed
qed

lemma pivoted_objective:
  assumes piv: "pivoted t cn coln r c t'" and feas: "feasible t cn coln"
    and r: "r < cn" "0 < t ! r ! c" and c: "t ! cn ! c \<le> 0"
  shows "t ! cn ! coln \<le> t' ! cn ! coln"
proof -
  define q where "q = t ! r ! coln / t ! r ! c"
  have q: "0 \<le> q" using feasibleD [OF feas r(1)] r(2) by (simp add: q_def)
  have "t' ! cn ! coln = t ! cn ! coln + (- (t ! cn ! c)) * q"
    using piv r(1) by (simp add: pivoted_def q_def)
  moreover have "0 \<le> - (t ! cn ! c)" using c by simp
  then have "0 \<le> (- (t ! cn ! c)) * q" using q by (rule mult_nonneg_nonneg)
  ultimately show ?thesis by linarith
qed

lemma initial_state_inv:
  assumes wf: "wf_tab t cn coln"
  shows "\<exists>s0. initial_state t cn coln = Some s0 \<and> run_inv s0 \<and> tableau s0 = t \<and>
     constraintNumb s0 = cn \<and> colNumb s0 = coln \<and> ni s0 = 0 \<and>
     (index (maxC s0) = - 1 \<longleftrightarrow> (\<forall>j\<le>coln. \<not> t ! cn ! j < 0))"
proof -
  have cols: "\<forall>j\<in>set [0..<Suc coln]. j \<le> coln" by auto
  from initial_scan_effect [OF wf cols, of Compare_Max_default]
  obtain mx where mx: "initial_scan t cn [0..<Suc coln] Compare_Max_default = Some mx"
    and low: "\<forall>j\<in>set [0..<Suc coln]. t ! cn ! j < 0 \<longrightarrow> - (t ! cn ! j) \<le> val mx"
    and pick: "mx = Compare_Max_default \<or> (\<exists>j\<in>set [0..<Suc coln]. t ! cn ! j < 0 \<and>
         val Compare_Max_default < - (t ! cn ! j) \<and> mx = \<lparr>val = - (t ! cn ! j), index = int j\<rparr>)"
    by blast
  define s0 where "s0 = \<lparr>tableau = t, constraintNumb = cn, colNumb = coln,
           maxC = mx\<lparr>val := 0\<rparr>, minC = Compare_Min_default,
           count = 0, conta = 0, ni = 0\<rparr>"
  have init: "initial_state t cn coln = Some s0"
    using mx by (simp add: initial_state_def s0_def)
  have neg: "index mx = - 1 \<longleftrightarrow> (\<forall>j\<le>coln. \<not> t ! cn ! j < 0)"
  proof (cases "mx = Compare_Max_default")
    case True
    then have "\<not> t ! cn ! j < 0" if "j \<le> coln" for j
      using low that by (fastforce simp: Compare_Max_default_def)
    then show ?thesis using True by (simp add: Compare_Max_default_def)
  next
    case False
    then show ?thesis using pick by auto
  qed
  have ent: "index mx = - 1 \<or> (\<exists>c\<le>coln. index mx = int c \<and> t ! cn ! c < 0)"
    using pick by (auto simp: Compare_Max_default_def)
  have "run_inv s0"
    using wf ent by (simp add: run_inv_def loop_inv_def s0_def Compare_Min_default_def)
  then show ?thesis using init neg by (simp add: s0_def)
qed

lemma iteration_run_inv:
  assumes inv: "run_inv s" and it: "iteration s = Inr s'"
  shows "constraintNumb s' = constraintNumb s \<and> colNumb s' = colNumb s \<and>
     ni s' = ni s + 1 \<and> loop_inv s' \<and> index (maxC s) \<noteq> - 1 \<and>
     (conta s' \<noteq> 0 \<longrightarrow> run_inv s' \<and> index (maxC s') \<noteq> - 1) \<and>
     (conta s' = 0 \<longrightarrow> (\<forall>j<colNumb s. 0 \<le> tableau s' ! constraintNumb s ! j))"
proof -
  have li: "loop_inv s" using inv by (simp add: run_inv_def)
  from iteration_Inr [OF li it]
  obtain c r where c: "index (maxC s) = int c"
    and st: "loop_inv s'" "constraintNumb s' = constraintNumb s" "colNumb s' = colNumb s"
      "ni s' = ni s + 1"
    and cnt: "conta s' = length (filter (\<lambda>j. tableau s' ! constraintNumb s ! j < 0) [0..<colNumb s])"
    and nxt: "conta s' \<noteq> 0 \<longrightarrow> (\<exists>c'<colNumb s. index (maxC s') = int c' \<and>
         tableau s' ! constraintNumb s ! c' < 0 \<and>
         (\<forall>j<colNumb s. tableau s' ! constraintNumb s ! c' \<le> tableau s' ! constraintNumb s ! j))"
    by blast
  have r': "run_inv s' \<and> index (maxC s') \<noteq> - 1" if nz: "conta s' \<noteq> 0"
  proof -
    obtain c' where "c' < colNumb s" "index (maxC s') = int c'" "tableau s' ! constraintNumb s ! c' < 0"
      using nxt nz by blast
    then show ?thesis using st by (auto simp: run_inv_def intro!: exI [of _ c'])
  qed
  have opt: "\<forall>j<colNumb s. 0 \<le> tableau s' ! constraintNumb s ! j" if z: "conta s' = 0"
  proof -
    have "filter (\<lambda>j. tableau s' ! constraintNumb s ! j < 0) [0..<colNumb s] = []"
      using cnt z by simp
    then show ?thesis by (auto simp: filter_empty_conv not_less)
  qed
  show ?thesis using st c r' opt by simp
qed

lemma iteration_feasible:
  assumes inv: "run_inv s" and feas: "feasible (tableau s) (constraintNumb s) (colNumb s)"
    and it: "iteration s = Inr s'"
  shows "feasible (tableau s') (constraintNumb s) (colNumb s) \<and>
     tableau s ! constraintNumb s ! colNumb s \<le> tableau s' ! constraintNumb s ! colNumb s"
proof -
  have li: "loop_inv s" using inv by (simp add: run_inv_def)
  from iteration_Inr [OF li it]
  obtain c r where c: "index (maxC s) = int c" "c \<le> colNumb s"
    and r: "r < constraintNumb s" "0 < tableau s ! r ! c"
    and minr: "\<forall>i<constraintNumb s. 0 < tableau s ! i ! c \<longrightarrow>
        tableau s ! r ! colNumb s / tableau s ! r ! c \<le> tableau s ! i ! colNumb s / tableau s ! i ! c"
    and piv: "pivoted (tableau s) (constraintNumb s) (colNumb s) r c (tableau s')"
    by blast
  have neg: "tableau s ! constraintNumb s ! c \<le> 0"
    using inv c by (auto simp: run_inv_def)
  have f': "feasible (tableau s') (constraintNumb s) (colNumb s)"
    using piv feas r minr by (rule pivoted_feasible)
  have o': "tableau s ! constraintNumb s ! colNumb s \<le> tableau s' ! constraintNumb s ! colNumb s"
    using piv feas r neg by (rule pivoted_objective)
  show ?thesis using f' o' by simp
qed

lemma iterations_Suc:
  "iterations (Suc n) s0 = Some s \<Longrightarrow>
   \<exists>s1. iterations n s0 = Some s1 \<and> iteration s1 = Inr s \<and> conta s \<noteq> 0"
  by (auto split: option.splits sum.splits if_splits)

lemma iterations_run_inv:
  "run_inv s0 \<Longrightarrow> iterations n s0 = Some s \<Longrightarrow>
   run_inv s \<and> constraintNumb s = constraintNumb s0 \<and> colNumb s = colNumb s0 \<and>
   ni s = ni s0 + n \<and> (0 < n \<longrightarrow> index (maxC s) \<noteq> - 1)"
proof (induction n arbitrary: s)
  case 0
  then show ?case by simp
next
  case (Suc n)
  from iterations_Suc [OF Suc.prems(2)]
  obtain s1 where s1: "iterations n s0 = Some s1" "iteration s1 = Inr s" "conta s \<noteq> 0"
    by blast
  from Suc.IH [OF Suc.prems(1) s1(1)]
  have ih: "run_inv s1" "constraintNumb s1 = constraintNumb s0" "colNumb s1 = colNumb s0"
    "ni s1 = ni s0 + n"
    by simp_all
  from iteration_run_inv [OF ih(1) s1(2)] s1(3) ih show ?case by simp
qed

lemma iterations_feasible:
  "run_inv s0 \<Longrightarrow> feasible (tableau s0) (constraintNumb s0) (colNumb s0) \<Longrightarrow>
   iterations n s0 = Some s \<Longrightarrow>
   feasible (tableau s) (constraintNumb s0) (colNumb s0)"
proof (induction n arbitrary: s)
  case 0
  then show ?case by simp
next
  case (Suc n)
  from iterations_Suc [OF Suc.prems(3)]
  obtain s1 where s1: "iterations n s0 = Some s1" "iteration s1 = Inr s" "conta s \<noteq> 0"
    by blast
  have f1: "feasible (tableau s1) (constraintNumb s0) (colNumb s0)"
    using Suc.IH [OF Suc.prems(1,2) s1(1)] .
  from iterations_run_inv [OF Suc.prems(1) s1(1)]
  have ih: "run_inv s1" "constraintNumb s1 = constraintNumb s0" "colNumb s1 = colNumb s0"
    by simp_all
  have "feasible (tableau s1) (constraintNumb s1) (colNumb s1)" using f1 ih by simp
  from iteration_feasible [OF ih(1) this s1(2)] ih show ?case by simp
qed

lemma iterations_pivot_loop: "iterations n s0 = Some s \<Longrightarrow> pivot_loop s0 = pivot_loop s"
proof (induction n arbitrary: s)
  case 0
  then show ?case by simp
next
  case (Suc n)
  from iterations_Suc [OF Suc.prems]
  obtain s1 where s1: "iterations n s0 = Some s1" "iteration s1 = Inr s" "conta s \<noteq> 0"
    by blast
  have "pivot_loop s1 = pivot_loop s"
    using s1(2,3) by (subst pivot_loop.simps) simp
  then show ?case using Suc.IH [OF s1(1)] by simp
qed

section \<open>The loop as a whole\<close>

lemma iterations_head:
  "iteration s0 = Inr s' \<Longrightarrow> conta s' \<noteq> 0 \<Longrightarrow> iterations (Suc n) s0 = iterations n s'"
  by (induction n) simp_all

lemma exits_with_pivot_loop: "exits_with s res \<Longrightarrow> pivot_loop s = Some res"
  by (subst pivot_loop.simps) (auto simp: exits_with_def split: sum.splits)

lemma pivot_loop_Some:
  assumes "pivot_loop s0 = Some res"
  shows "\<exists>n s1. iterations n s0 = Some s1 \<and> exits_with s1 res"
proof (rule pivot_loop.raw_induct [where P = "\<lambda>s0 res. \<exists>n s1. iterations n s0 = Some s1 \<and> exits_with s1 res", OF _ assms])
  fix pl :: "state \<Rightarrow> (error + state) option" and s res
  assume IH: "\<And>x y. pl x = Some y \<Longrightarrow> \<exists>n s1. iterations n x = Some s1 \<and> exits_with s1 y"
    and body: "(case iteration s of Inl e \<Rightarrow> Some (Inl e)
      | Inr s' \<Rightarrow> if conta s' \<noteq> 0 then pl s' else Some (Inr s')) = Some res"
  show "\<exists>n s1. iterations n s = Some s1 \<and> exits_with s1 res"
  proof (cases "iteration s")
    case (Inl e)
    then have "res = Inl e" using body by simp
    then have "iterations 0 s = Some s \<and> exits_with s res"
      using Inl by (simp add: exits_with_def)
    then show ?thesis by blast
  next
    case (Inr s')
    show ?thesis
    proof (cases "conta s' = 0")
      case True
      then have "res = Inr s'" using Inr body by simp
      then have "iterations 0 s = Some s \<and> exits_with s res"
        using Inr True by (simp add: exits_with_def)
      then show ?thesis by blast
    next
      case False
      then have "pl s' = Some res" using Inr body by simp
      from IH [OF this]
      obtain n s1 where n: "iterations n s' = Some s1" "exits_with s1 res" by blast
      have "iterations (Suc n) s = Some s1"
        using iterations_head [OF Inr False] n(1) by simp
      then show ?thesis using n(2) by blast
    qed
  qed
qed

lemma pivot_loop_iff:
  "pivot_loop s0 = Some res \<longleftrightarrow> (\<exists>n s1. iterations n s0 = Some s1 \<and> exits_with s1 res)"
proof
  assume "pivot_loop s0 = Some res"
  then show "\<exists>n s1. iterations n s0 = Some s1 \<and> exits_with s1 res" by (rule pivot_loop_Some)
next
  assume "\<exists>n s1. iterations n s0 = Some s1 \<and> exits_with s1 res"
  then obtain n s1 where "iterations n s0 = Some s1" "exits_with s1 res" by blast
  then show "pivot_loop s0 = Some res"
    using iterations_pivot_loop exits_with_pivot_loop by simp
qed

section \<open>The scenario, and the run of one thread\<close>

lemma wf_scenario: "wf_tab scenario 3 5"
  by (simp add: wf_tab_def scenario_def)

lemma feasible_scenario: "feasible scenario 3 5"
  by code_simp

lemma state_at_scenario_0: "state_at 0 scenario 3 5 = Some scenario_start"
  by code_simp

lemma state_at_scenario_1: "state_at 1 scenario 3 5 = Some scenario_mid"
  by code_simp

lemma iteration_scenario_start: "iteration scenario_start = Inr scenario_mid"
  by code_simp

lemma iteration_scenario_mid: "iteration scenario_mid = Inr scenario_final"
  by code_simp

lemma simplex_scenario: "simplex scenario 3 5 = Some (Inr scenario_final)"
  by code_simp

lemma simplex_initial:
  assumes "wf_tab t cn coln"
  obtains s0 where "initial_state t cn coln = Some s0" "run_inv s0" "tableau s0 = t"
    "constraintNumb s0 = cn" "colNumb s0 = coln" "ni s0 = 0"
    "index (maxC s0) = - 1 \<longleftrightarrow> (\<forall>j\<le>coln. \<not> t ! cn ! j < 0)"
    "simplex t cn coln = pivot_loop s0" "\<And>n. state_at n t cn coln = iterations n s0"
proof -
  from initial_state_inv [OF assms]
  obtain s0 where s0: "initial_state t cn coln = Some s0" "run_inv s0" "tableau s0 = t"
    "constraintNumb s0 = cn" "colNumb s0 = coln" "ni s0 = 0"
    "index (maxC s0) = - 1 \<longleftrightarrow> (\<forall>j\<le>coln. \<not> t ! cn ! j < 0)"
    by blast
  have "simplex t cn coln = pivot_loop s0" "\<And>n. state_at n t cn coln = iterations n s0"
    using s0(1) by (simp_all add: simplex_def state_at_def)
  with s0 that show ?thesis by blast
qed

text \<open>
  With one thread, a pivot of the Row Eliminator with a pivot that is not zero divides the
  pivot row by the pivot and reduces every other row, the objective row included, by its
  entry in the pivot column times the normalized pivot row.
\<close>

lemma one_thread_row_eliminator_pivot:
  assumes "wf_tab t cn coln" and "r < cn" and "c \<le> coln" and "t ! r ! c \<noteq> 0"
  shows "\<exists>t' mx' k. row_eliminator t cn coln (int r) (int c) mx = Some (t', mx', k) \<and>
     (\<forall>j\<le>coln. t' ! r ! j = t ! r ! j / t ! r ! c) \<and>
     (\<forall>i<cn. i \<noteq> r \<longrightarrow> (\<forall>j\<le>coln. t' ! i ! j = t ! i ! j + (- (t ! i ! c)) * t' ! r ! j)) \<and>
     (\<forall>j\<le>coln. t' ! cn ! j = t ! cn ! j + (- (t ! cn ! c)) * t' ! r ! j)"
proof -
  from row_eliminator_effect [OF assms(1,2,3), of mx]
  obtain t' mx' k where run: "row_eliminator t cn coln (int r) (int c) mx = Some (t', mx', k)"
    and piv: "pivoted t cn coln r c t'"
    by blast
  have rowr: "\<forall>j\<le>coln. t' ! r ! j = t ! r ! j / t ! r ! c"
    using piv by (simp add: pivoted_def)
  have rowi: "\<forall>i<cn. i \<noteq> r \<longrightarrow> (\<forall>j\<le>coln. t' ! i ! j = t ! i ! j + (- (t ! i ! c)) * t' ! r ! j)"
    using piv by (simp add: pivoted_def)
  have obj: "\<forall>j\<le>coln. t' ! cn ! j = t ! cn ! j + (- (t ! cn ! c)) * t' ! r ! j"
    using piv assms(2) by (simp add: pivoted_def)
  show ?thesis using run rowr rowi obj by blast
qed

text \<open>
  With one thread, a pass that finds no positive entry in the entering column ends the run
  with \<open>exit(1)\<close>.
\<close>

lemma one_thread_unbounded_terminal:
  assumes wf: "wf_tab t cn coln" and st: "state_at n t cn coln = Some s"
    and col: "\<forall>i<cn. \<exists>v. rd (tableau s) (int i) (index (maxC s)) = Some v \<and> v \<le> 0"
  shows "simplex t cn coln = Some (Inl NoSolution) \<and>
     exit_status (Inl NoSolution) = Some 1 \<and> objective_value (Inl NoSolution) = None"
proof -
  from simplex_initial [OF wf]
  obtain s0 where s0: "run_inv s0" "constraintNumb s0 = cn" "colNumb s0 = coln"
    "simplex t cn coln = pivot_loop s0" "\<And>n. state_at n t cn coln = iterations n s0"
    by metis
  have it: "iterations n s0 = Some s" using st s0(5) by simp
  from iterations_run_inv [OF s0(1) it]
  have inv: "run_inv s" "constraintNumb s = cn" "colNumb s = coln"
    using s0 by simp_all
  have li: "loop_inv s" using inv(1) by (simp add: run_inv_def)
  have wfs: "wf_tab (tableau s) cn coln" using li inv by (simp add: loop_inv_def)
  have ns: "iteration s = Inl NoSolution"
  proof (cases "cn = 0")
    case True
    then show ?thesis using li inv by (simp add: iteration_def loop_inv_def)
  next
    case False
    then obtain v where "rd (tableau s) (int 0) (index (maxC s)) = Some v" using col by auto
    then have c: "0 \<le> index (maxC s)" "nat (index (maxC s)) \<le> coln"
      using rd_Some_iff [OF wfs] by auto
    define c where "c = nat (index (maxC s))"
    have c': "index (maxC s) = int c" "c \<le> colNumb s" using c inv by (simp_all add: c_def)
    have "\<not> 0 < tableau s ! i ! c" if "i < constraintNumb s" for i
    proof -
      have i: "i < cn" using that inv by simp
      then obtain v where v: "rd (tableau s) (int i) (int c) = Some v" "v \<le> 0"
        using col c'(1) by auto
      have "rd (tableau s) (int i) (int c) = Some (tableau s ! i ! c)"
        using rd_wf [OF wfs, of i c] i c' inv by simp
      then show ?thesis using v by simp
    qed
    then show ?thesis using iteration_NoSolution [OF li c'] by blast
  qed
  have "exits_with s (Inl NoSolution)" using ns by (simp add: exits_with_def)
  then have "pivot_loop s0 = Some (Inl NoSolution)"
    using iterations_pivot_loop [OF it] exits_with_pivot_loop by simp
  then show ?thesis using s0(4) by (simp add: exit_status_def objective_value_def)
qed

text \<open>With one thread, the right-hand side of a feasible start stays feasible at every pass.\<close>

lemma one_thread_rhs_stays_nonneg:
  assumes wf: "wf_tab t cn coln" and feas: "feasible t cn coln"
    and st: "state_at n t cn coln = Some s"
  shows "feasible (tableau s) cn coln"
proof -
  from simplex_initial [OF wf]
  obtain s0 where s0: "run_inv s0" "tableau s0 = t" "constraintNumb s0 = cn" "colNumb s0 = coln"
    "\<And>n. state_at n t cn coln = iterations n s0"
    by metis
  have it: "iterations n s0 = Some s" using st s0(5) by simp
  have "feasible (tableau s0) (constraintNumb s0) (colNumb s0)" using feas s0 by simp
  from iterations_feasible [OF s0(1) this it] s0 show ?thesis by simp
qed

text \<open>With one thread, no pass from a feasible start lowers the objective value.\<close>

lemma one_thread_objective_nondecreasing:
  assumes wf: "wf_tab t cn coln" and feas: "feasible t cn coln"
    and st: "state_at n t cn coln = Some s" and it: "iteration s = Inr s'"
  shows "tableau s ! cn ! coln \<le> tableau s' ! cn ! coln"
proof -
  from simplex_initial [OF wf]
  obtain s0 where s0: "run_inv s0" "tableau s0 = t" "constraintNumb s0 = cn" "colNumb s0 = coln"
    "\<And>n. state_at n t cn coln = iterations n s0"
    by metis
  have its: "iterations n s0 = Some s" using st s0(5) by simp
  have f0: "feasible (tableau s0) (constraintNumb s0) (colNumb s0)" using feas s0 by simp
  from iterations_run_inv [OF s0(1) its]
  have inv: "run_inv s" "constraintNumb s = cn" "colNumb s = coln"
    using s0 by simp_all
  have "feasible (tableau s) (constraintNumb s) (colNumb s)"
    using iterations_feasible [OF s0(1) f0 its] s0 inv by simp
  from iteration_feasible [OF inv(1) this it] inv show ?thesis by simp
qed

lemma objective_has_negative_iff:
  "objective_has_negative t cn coln \<longleftrightarrow> (\<exists>j\<le>coln. t ! cn ! j < 0)"
proof -
  have "set [0..<Suc coln] = {j. j \<le> coln}" by auto
  then show ?thesis unfolding objective_has_negative_def list_ex_iff by blast
qed

lemma upt_3: "[0..<3] = [0, 1, 2]"
  by code_simp

lemma upt_8: "[0..<8] = [0, 1, 2, 3, 4, 5, 6, 7]"
  by code_simp

lemma iteration_eval:
  assumes "ratio_test (tableau s) (colNumb s) (index (maxC s)) [0..<constraintNumb s]
             (minC s, count s) = Some (mn, cnt)"
    and "cnt \<noteq> constraintNumb s"
    and "row_eliminator (tableau s) (constraintNumb s) (colNumb s) (index mn) (index (maxC s))
           (maxC s) = Some (t', mx, cnta)"
  shows "iteration s = Inr (s\<lparr>tableau := t', count := 0, conta := cnta, ni := ni s + 1,
                        maxC := mx\<lparr>val := 0\<rparr>, minC := mn\<lparr>val := HUGE_VAL\<rparr>\<rparr>)"
  using assms by (simp add: iteration_def)

lemma stage_0:
  assumes "at_stage chvatal 0 s"
  shows "\<exists>s'. iteration s = Inr s' \<and> conta s' \<noteq> 0 \<and> at_stage chvatal_1 1 s'"
proof -
  have f: "tableau s = chvatal" "constraintNumb s = 3" "colNumb s = 7" "index (maxC s) = 0"
    "val (maxC s) = 0" "val (minC s) = HUGE_VAL" "count s = 0"
    using assms by (simp_all add: at_stage_def)
  have rt: "ratio_test (tableau s) (colNumb s) (index (maxC s)) [0..<constraintNumb s]
             (minC s, count s) = Some (\<lparr>val = Fin 0, index = 0\<rparr>, 0)"
    by (simp add: f upt_3 chvatal_def rd_def)
  have re: "row_eliminator (tableau s) (constraintNumb s) (colNumb s) (index \<lparr>val = Fin 0, index = 0\<rparr>)
      (index (maxC s)) (maxC s) = Some (chvatal_1, \<lparr>val = 53, index = 1\<rparr>, 2)"
    by (simp add: f row_eliminator_def upt_8 upt_3 chvatal_def chvatal_1_def rd_def wr_def)
  have "0 \<noteq> constraintNumb s" by (simp add: f)
  from iteration_eval [OF rt this re] show ?thesis
    by (simp add: at_stage_def f)
qed

lemma stage_1:
  assumes "at_stage chvatal_1 1 s"
  shows "\<exists>s'. iteration s = Inr s' \<and> conta s' \<noteq> 0 \<and> at_stage chvatal_2 2 s'"
proof -
  have f: "tableau s = chvatal_1" "constraintNumb s = 3" "colNumb s = 7" "index (maxC s) = 1"
    "val (maxC s) = 0" "val (minC s) = HUGE_VAL" "count s = 0"
    using assms by (simp_all add: at_stage_def)
  have rt: "ratio_test (tableau s) (colNumb s) (index (maxC s)) [0..<constraintNumb s]
             (minC s, count s) = Some (\<lparr>val = Fin 0, index = 1\<rparr>, 1)"
    by (simp add: f upt_3 chvatal_1_def rd_def)
  have re: "row_eliminator (tableau s) (constraintNumb s) (colNumb s) (index \<lparr>val = Fin 0, index = 1\<rparr>)
      (index (maxC s)) (maxC s) = Some (chvatal_2, \<lparr>val = 29 / 2, index = 2\<rparr>, 1)"
    by (simp add: f row_eliminator_def upt_8 upt_3 chvatal_1_def chvatal_2_def rd_def wr_def)
  have "1 \<noteq> constraintNumb s" by (simp add: f)
  from iteration_eval [OF rt this re] show ?thesis
    by (simp add: at_stage_def f)
qed

lemma stage_2:
  assumes "at_stage chvatal_2 2 s"
  shows "\<exists>s'. iteration s = Inr s' \<and> conta s' \<noteq> 0 \<and> at_stage chvatal_3 3 s'"
proof -
  have f: "tableau s = chvatal_2" "constraintNumb s = 3" "colNumb s = 7" "index (maxC s) = 2"
    "val (maxC s) = 0" "val (minC s) = HUGE_VAL" "count s = 0"
    using assms by (simp_all add: at_stage_def)
  have rt: "ratio_test (tableau s) (colNumb s) (index (maxC s)) [0..<constraintNumb s]
             (minC s, count s) = Some (\<lparr>val = Fin 0, index = 0\<rparr>, 1)"
    by (simp add: f upt_3 chvatal_2_def rd_def)
  have re: "row_eliminator (tableau s) (constraintNumb s) (colNumb s) (index \<lparr>val = Fin 0, index = 0\<rparr>)
      (index (maxC s)) (maxC s) = Some (chvatal_3, \<lparr>val = 18, index = 3\<rparr>, 2)"
    by (simp add: f row_eliminator_def upt_8 upt_3 chvatal_2_def chvatal_3_def rd_def wr_def)
  have "1 \<noteq> constraintNumb s" by (simp add: f)
  from iteration_eval [OF rt this re] show ?thesis
    by (simp add: at_stage_def f)
qed

lemma stage_3:
  assumes "at_stage chvatal_3 3 s"
  shows "\<exists>s'. iteration s = Inr s' \<and> conta s' \<noteq> 0 \<and> at_stage chvatal_4 4 s'"
proof -
  have f: "tableau s = chvatal_3" "constraintNumb s = 3" "colNumb s = 7" "index (maxC s) = 3"
    "val (maxC s) = 0" "val (minC s) = HUGE_VAL" "count s = 0"
    using assms by (simp_all add: at_stage_def)
  have rt: "ratio_test (tableau s) (colNumb s) (index (maxC s)) [0..<constraintNumb s]
             (minC s, count s) = Some (\<lparr>val = Fin 0, index = 1\<rparr>, 2)"
    by (simp add: f upt_3 chvatal_3_def rd_def)
  have re: "row_eliminator (tableau s) (constraintNumb s) (colNumb s) (index \<lparr>val = Fin 0, index = 1\<rparr>)
      (index (maxC s)) (maxC s) = Some (chvatal_4, \<lparr>val = 21 / 2, index = 4\<rparr>, 1)"
    by (simp add: f row_eliminator_def upt_8 upt_3 chvatal_3_def chvatal_4_def rd_def wr_def)
  have "2 \<noteq> constraintNumb s" by (simp add: f)
  from iteration_eval [OF rt this re] show ?thesis
    by (simp add: at_stage_def f)
qed

lemma stage_4:
  assumes "at_stage chvatal_4 4 s"
  shows "\<exists>s'. iteration s = Inr s' \<and> conta s' \<noteq> 0 \<and> at_stage chvatal_5 5 s'"
proof -
  have f: "tableau s = chvatal_4" "constraintNumb s = 3" "colNumb s = 7" "index (maxC s) = 4"
    "val (maxC s) = 0" "val (minC s) = HUGE_VAL" "count s = 0"
    using assms by (simp_all add: at_stage_def)
  have rt: "ratio_test (tableau s) (colNumb s) (index (maxC s)) [0..<constraintNumb s]
             (minC s, count s) = Some (\<lparr>val = Fin 0, index = 0\<rparr>, 1)"
    by (simp add: f upt_3 chvatal_4_def rd_def)
  have re: "row_eliminator (tableau s) (constraintNumb s) (colNumb s) (index \<lparr>val = Fin 0, index = 0\<rparr>)
      (index (maxC s)) (maxC s) = Some (chvatal_5, \<lparr>val = 24, index = 5\<rparr>, 2)"
    by (simp add: f row_eliminator_def upt_8 upt_3 chvatal_4_def chvatal_5_def rd_def wr_def)
  have "1 \<noteq> constraintNumb s" by (simp add: f)
  from iteration_eval [OF rt this re] show ?thesis
    by (simp add: at_stage_def f)
qed

lemma stage_5:
  assumes "at_stage chvatal_5 5 s"
  shows "\<exists>s'. iteration s = Inr s' \<and> conta s' \<noteq> 0 \<and> at_stage chvatal 0 s'"
proof -
  have f: "tableau s = chvatal_5" "constraintNumb s = 3" "colNumb s = 7" "index (maxC s) = 5"
    "val (maxC s) = 0" "val (minC s) = HUGE_VAL" "count s = 0"
    using assms by (simp_all add: at_stage_def)
  have rt: "ratio_test (tableau s) (colNumb s) (index (maxC s)) [0..<constraintNumb s]
             (minC s, count s) = Some (\<lparr>val = Fin 0, index = 1\<rparr>, 2)"
    by (simp add: f upt_3 chvatal_5_def rd_def)
  have re: "row_eliminator (tableau s) (constraintNumb s) (colNumb s) (index \<lparr>val = Fin 0, index = 1\<rparr>)
      (index (maxC s)) (maxC s) = Some (chvatal, \<lparr>val = 10, index = 0\<rparr>, 1)"
    by (simp add: f row_eliminator_def upt_8 upt_3 chvatal_5_def chvatal_def rd_def wr_def)
  have "2 \<noteq> constraintNumb s" by (simp add: f)
  from iteration_eval [OF rt this re] show ?thesis
    by (simp add: at_stage_def f)
qed

lemma cycle_step: "in_cycle s \<Longrightarrow> \<exists>s'. iteration s = Inr s' \<and> conta s' \<noteq> 0 \<and> in_cycle s'"
  unfolding in_cycle_def
  using stage_0 stage_1 stage_2 stage_3 stage_4 stage_5 by blast

lemma cycle_iterations: "in_cycle s0 \<Longrightarrow> \<exists>s. iterations n s0 = Some s \<and> in_cycle s"
proof (induction n)
  case 0
  then show ?case by simp
next
  case (Suc n)
  then obtain s1 where s1: "iterations n s0 = Some s1" "in_cycle s1" by blast
  from cycle_step [OF s1(2)] obtain s' where "iteration s1 = Inr s'" "conta s' \<noteq> 0" "in_cycle s'"
    by blast
  then show ?case using s1(1) by simp
qed

lemma cycle_forever: "in_cycle s0 \<Longrightarrow> pivot_loop s0 = None"
proof (rule ccontr)
  assume cyc: "in_cycle s0" and "pivot_loop s0 \<noteq> None"
  then obtain res where "pivot_loop s0 = Some res" by auto
  from pivot_loop_Some [OF this]
  obtain n s1 where n: "iterations n s0 = Some s1" "exits_with s1 res" by blast
  from cycle_iterations [OF cyc, of n] n(1) have "in_cycle s1" by simp
  from cycle_step [OF this] obtain s' where "iteration s1 = Inr s'" "conta s' \<noteq> 0" by blast
  then show False using n(2) by (simp add: exits_with_def)
qed

lemma chvatal_start:
  "\<exists>s0. initial_state chvatal 3 7 = Some s0 \<and> in_cycle s0"
proof -
  have "initial_state chvatal 3 7 = Some \<lparr>tableau = chvatal, constraintNumb = 3, colNumb = 7,
       maxC = \<lparr>val = 0, index = 0\<rparr>, minC = \<lparr>val = HUGE_VAL, index = - 1\<rparr>,
       count = 0, conta = 0, ni = 0\<rparr>"
    by code_simp
  then show ?thesis by (simp add: in_cycle_def at_stage_def)
qed

lemma iteration_no_wild_access:
  assumes inv: "run_inv s" and c: "index (maxC s) \<noteq> - 1"
  shows "iteration s = Inl NoSolution \<or> (\<exists>s'. iteration s = Inr s')"
proof -
  have li: "loop_inv s" using inv by (simp add: run_inv_def)
  obtain c where c: "c \<le> colNumb s" "index (maxC s) = int c"
    using inv c by (auto simp: run_inv_def)
  show ?thesis
  proof (cases "\<exists>i<constraintNumb s. 0 < tableau s ! i ! c")
    case True
    from iteration_pivot [OF li c(2,1) True] show ?thesis by blast
  next
    case False
    then have "iteration s = Inl NoSolution"
      using iteration_NoSolution [OF li c(2,1)] by blast
    then show ?thesis by simp
  qed
qed

lemma iterations_None:
  "iterations n s0 = None \<Longrightarrow> \<exists>m s res. m < n \<and> iterations m s0 = Some s \<and> exits_with s res"
proof (induction n)
  case 0
  then show ?case by simp
next
  case (Suc n)
  show ?case
  proof (cases "iterations n s0")
    case None
    from Suc.IH [OF None] show ?thesis using less_Suc_eq by blast
  next
    case (Some s1)
    have "\<exists>res. exits_with s1 res"
    proof (cases "iteration s1")
      case (Inl e)
      then show ?thesis by (simp add: exits_with_def)
    next
      case (Inr s')
      then have "conta s' = 0" using Suc.prems Some by (simp split: if_splits)
      then show ?thesis using Inr by (simp add: exits_with_def)
    qed
    then show ?thesis using Some by blast
  qed
qed

lemma exits_iterations_None: "iterations n s0 = Some s \<Longrightarrow> exits_with s res \<Longrightarrow> iterations (Suc n) s0 = None"
  by (auto simp: exits_with_def split: sum.splits)

text \<open>
  On a well-formed tableau with a negative objective entry, the run of one thread in exact
  arithmetic either ends in one of the two terminals or goes through every pass.
\<close>

lemma terminal_or_forever:
  assumes wf: "wf_tab t cn coln" and neg: "objective_has_negative t cn coln"
  shows "(\<exists>n s res. state_at n t cn coln = Some s \<and> exits_with s res \<and>
            simplex t cn coln = Some res \<and>
            (res = Inl NoSolution \<or> (\<exists>s'. res = Inr s' \<and> conta s' = 0))) \<or>
         (simplex t cn coln = None \<and> (\<forall>n. \<exists>s. state_at n t cn coln = Some s))"
proof -
  from simplex_initial [OF wf]
  obtain s0 where s0: "run_inv s0"
    "index (maxC s0) = - 1 \<longleftrightarrow> (\<forall>j\<le>coln. \<not> t ! cn ! j < 0)"
    "simplex t cn coln = pivot_loop s0" "\<And>n. state_at n t cn coln = iterations n s0"
    by metis
  have start: "index (maxC s0) \<noteq> - 1"
    using neg s0(2) by (simp add: objective_has_negative_iff)
  show ?thesis
  proof (cases "\<exists>n. iterations n s0 = None")
    case True
    then obtain n where "iterations n s0 = None" by blast
    from iterations_None [OF this]
    obtain m s res where m: "iterations m s0 = Some s" "exits_with s res" by blast
    have ret: "pivot_loop s0 = Some res"
      using iterations_pivot_loop [OF m(1)] exits_with_pivot_loop [OF m(2)] by simp
    from iterations_run_inv [OF s0(1) m(1)]
    have inv: "run_inv s" "0 < m \<longrightarrow> index (maxC s) \<noteq> - 1" by simp_all
    have "index (maxC s) \<noteq> - 1"
    proof (cases "m = 0")
      case True
      then show ?thesis using m(1) start by simp
    next
      case False
      then show ?thesis using inv(2) by simp
    qed
    from iteration_no_wild_access [OF inv(1) this]
    have "res = Inl NoSolution \<or> (\<exists>s'. res = Inr s' \<and> conta s' = 0)"
      using m(2) by (auto simp: exits_with_def)
    then show ?thesis using m ret s0(3,4) by auto
  next
    case False
    then have all: "\<forall>n. \<exists>s. iterations n s0 = Some s" by auto
    have "pivot_loop s0 = None"
    proof (rule ccontr)
      assume "pivot_loop s0 \<noteq> None"
      then obtain res where "pivot_loop s0 = Some res" by auto
      from pivot_loop_Some [OF this]
      obtain n s1 where "iterations n s0 = Some s1" "exits_with s1 res" by blast
      then have "iterations (Suc n) s0 = None" by (rule exits_iterations_None)
      then show False using all by (metis option.distinct(1))
    qed
    then show ?thesis using all s0(3,4) by simp
  qed
qed

section \<open>Passes under a schedule\<close>

lemma eliminate_rows_s_fixed:
  "eliminate_rows_s t coln r (\<lambda>i. c) is = eliminate_rows t coln r c is"
  by (induction "is" arbitrary: t) (simp_all cong: Option.bind_cong)

lemma row_eliminator_s_none_late: "row_eliminator_s [] t cn coln r c mx = row_eliminator t cn coln r c mx"
  by (auto simp: row_eliminator_s_def row_eliminator_def eliminate_rows_s_fixed Let_def
      intro!: Option.bind_cong split: prod.splits)

lemma iteration_s_one_thread: "iteration_s one_thread s = iteration s"
  by (simp add: iteration_s_def iteration_def one_thread_def row_eliminator_s_none_late
      split: option.splits prod.splits)

lemma pivot_loop_s_one_thread_Some:
  assumes ret: "pivot_loop_s sched s = Some res"
  shows "sched = (\<lambda>n. one_thread) \<longrightarrow> pivot_loop s = Some res"
proof (rule pivot_loop_s.raw_induct [where P = "\<lambda>sched s res.
    sched = (\<lambda>n. one_thread) \<longrightarrow> pivot_loop s = Some res", OF _ ret])
  fix pl :: "(nat \<Rightarrow> pass_schedule) \<Rightarrow> state \<Rightarrow> (error + state) option" and sched s res
  assume IH: "\<And>sc x y. pl sc x = Some y \<Longrightarrow> sc = (\<lambda>n. one_thread) \<longrightarrow> pivot_loop x = Some y"
    and body: "(case iteration_s (sched (ni s)) s of Inl e \<Rightarrow> Some (Inl e)
      | Inr s' \<Rightarrow> if conta s' \<noteq> 0 then pl sched s' else Some (Inr s')) = Some res"
  show "sched = (\<lambda>n. one_thread) \<longrightarrow> pivot_loop s = Some res"
  proof
    assume one: "sched = (\<lambda>n. one_thread)"
    show "pivot_loop s = Some res"
    proof (cases "iteration s")
      case (Inl e)
      with body one have "res = Inl e" by (simp add: iteration_s_one_thread)
      then show ?thesis by (subst pivot_loop.simps) (simp add: Inl)
    next
      case (Inr s')
      show ?thesis
      proof (cases "conta s' = 0")
        case True
        with body one Inr have "res = Inr s'" by (simp add: iteration_s_one_thread)
        then show ?thesis by (subst pivot_loop.simps) (simp add: Inr True)
      next
        case False
        then have "pl sched s' = Some res"
          using body one Inr by (simp add: iteration_s_one_thread)
        from IH [OF this] one have "pivot_loop s' = Some res" by simp
        then show ?thesis by (subst pivot_loop.simps) (simp add: Inr False)
      qed
    qed
  qed
qed

lemma pivot_loop_one_thread_Some:
  assumes ret: "pivot_loop s = Some res"
  shows "pivot_loop_s (\<lambda>n. one_thread) s = Some res"
proof (rule pivot_loop.raw_induct [where P = "\<lambda>s res.
    pivot_loop_s (\<lambda>n. one_thread) s = Some res", OF _ ret])
  fix pl :: "state \<Rightarrow> (error + state) option" and s res
  assume IH: "\<And>x y. pl x = Some y \<Longrightarrow> pivot_loop_s (\<lambda>n. one_thread) x = Some y"
    and body: "(case iteration s of Inl e \<Rightarrow> Some (Inl e)
      | Inr s' \<Rightarrow> if conta s' \<noteq> 0 then pl s' else Some (Inr s')) = Some res"
  show "pivot_loop_s (\<lambda>n. one_thread) s = Some res"
  proof (cases "iteration s")
    case (Inl e)
    with body have "res = Inl e" by simp
    then show ?thesis by (subst pivot_loop_s.simps) (simp add: iteration_s_one_thread Inl)
  next
    case (Inr s')
    show ?thesis
    proof (cases "conta s' = 0")
      case True
      with body Inr have "res = Inr s'" by simp
      then show ?thesis by (subst pivot_loop_s.simps) (simp add: iteration_s_one_thread Inr True)
    next
      case False
      then have "pl s' = Some res" using body Inr by simp
      from IH [OF this] show ?thesis
        by (subst pivot_loop_s.simps) (simp add: iteration_s_one_thread Inr False)
    qed
  qed
qed

text \<open>The run of one thread is the run under the schedule in which no thread is ahead or late.\<close>

lemma simplex_s_one_thread: "simplex_s (\<lambda>n. one_thread) t cn coln = simplex t cn coln"
proof -
  have "pivot_loop_s (\<lambda>n. one_thread) s = pivot_loop s" for s
  proof (cases "pivot_loop s")
    case None
    show ?thesis
    proof (cases "pivot_loop_s (\<lambda>n. one_thread) s")
      case None
      then show ?thesis using \<open>pivot_loop s = None\<close> by simp
    next
      case (Some res)
      from pivot_loop_s_one_thread_Some [OF this] show ?thesis using Some by simp
    qed
  next
    case (Some res)
    from pivot_loop_one_thread_Some [OF this] show ?thesis using Some by simp
  qed
  then show ?thesis by (simp add: simplex_s_def simplex_def split: option.splits)
qed






lemma iteration_s_wild_column:
  "ratio_test (tableau s) (colNumb s) (index (maxC s)) [0..<constraintNumb s] (minC s, count s) = None
   \<Longrightarrow> iteration_s sch s = Inl OutOfBounds"
  by (simp add: iteration_s_def)


section \<open>Basis headings\<close>

lemma sum_delta_le: "i \<le> (n::nat) \<Longrightarrow> (\<Sum>l\<le>n. (if l = i then a else 0) * x l) = a * (x i :: rat)"
proof -
  assume i: "i \<le> n"
  have "(\<Sum>l\<le>n. (if l = i then a else 0) * x l) = (\<Sum>l\<le>n. if l = i then a * x l else 0)"
    by (rule sum.cong) auto
  also have "\<dots> = a * x i" using i by (subst sum.delta) auto
  finally show ?thesis .
qed

lemma sum_delta_le': "i \<le> (n::nat) \<Longrightarrow> (\<Sum>l\<le>n. x l * (if l = i then a else 0)) = x i * (a :: rat)"
  using sum_delta_le [of i n a x] by (simp add: mult.commute)

lemma lin_refl: "lin cn coln t t"
proof -
  have "\<forall>k\<le>cn. \<forall>j\<le>coln. t ! k ! j = (\<Sum>l\<le>cn. (if l = k then 1 else 0) * t ! l ! j)"
    by (simp add: sum_delta_le)
  then show ?thesis
    unfolding lin_def by (intro exI [of _ "\<lambda>k l. if l = k then 1 else 0"]) auto
qed

lemma lin_trans:
  assumes "lin cn coln t1 t2" and "lin cn coln t2 t3"
  shows "lin cn coln t1 t3"
proof -
  from assms(1) obtain N1 :: "nat \<Rightarrow> nat \<Rightarrow> rat"
    where N1: "\<forall>k\<le>cn. N1 k cn = (if k = cn then 1 else 0)"
      "\<forall>k\<le>cn. \<forall>j\<le>coln. t2 ! k ! j = (\<Sum>l\<le>cn. N1 k l * t1 ! l ! j)"
    unfolding lin_def by blast
  from assms(2) obtain N2 :: "nat \<Rightarrow> nat \<Rightarrow> rat"
    where N2: "\<forall>k\<le>cn. N2 k cn = (if k = cn then 1 else 0)"
      "\<forall>k\<le>cn. \<forall>j\<le>coln. t3 ! k ! j = (\<Sum>l\<le>cn. N2 k l * t2 ! l ! j)"
    unfolding lin_def by blast
  define N where "N k m = (\<Sum>l\<le>cn. N2 k l * N1 l m)" for k m
  have last: "N k cn = (if k = cn then 1 else 0)" if k: "k \<le> cn" for k
  proof -
    have "N k cn = (\<Sum>l\<le>cn. N2 k l * (if l = cn then 1 else 0))"
      unfolding N_def by (rule sum.cong) (use N1(1) in auto)
    also have "\<dots> = N2 k cn" by (simp add: sum_delta_le')
    finally show ?thesis using N2(1) k by simp
  qed
  have ent: "t3 ! k ! j = (\<Sum>m\<le>cn. N k m * t1 ! m ! j)" if k: "k \<le> cn" and j: "j \<le> coln" for k j
  proof -
    have "t3 ! k ! j = (\<Sum>l\<le>cn. N2 k l * t2 ! l ! j)" using N2(2) k j by simp
    also have "\<dots> = (\<Sum>l\<le>cn. N2 k l * (\<Sum>m\<le>cn. N1 l m * t1 ! m ! j))"
      by (rule sum.cong) (use N1(2) j in auto)
    also have "\<dots> = (\<Sum>l\<le>cn. \<Sum>m\<le>cn. N2 k l * N1 l m * t1 ! m ! j)"
      by (simp add: sum_distrib_left mult.assoc)
    also have "\<dots> = (\<Sum>m\<le>cn. \<Sum>l\<le>cn. N2 k l * N1 l m * t1 ! m ! j)"
      by (rule sum.swap)
    also have "\<dots> = (\<Sum>m\<le>cn. N k m * t1 ! m ! j)"
      by (simp add: N_def sum_distrib_right)
    finally show ?thesis .
  qed
  show ?thesis unfolding lin_def using last ent by (intro exI [of _ N]) auto
qed

lemma sum_two_deltas:
  "r \<le> (n::nat) \<Longrightarrow> k \<le> n \<Longrightarrow>
   (\<Sum>l\<le>n. ((if l = r then a else 0) + (if l = k then b else 0)) * x l) = a * x r + b * (x k :: rat)"
  by (simp add: distrib_right sum.distrib sum_delta_le)

lemma pivoted_lin:
  assumes piv: "pivoted t cn coln r c t'" and r: "r < cn" and p: "t ! r ! c \<noteq> 0"
  shows "lin cn coln t t' \<and> lin cn coln t' t"
proof -
  define p where "p = t ! r ! c"
  have rowr: "t' ! r ! j = t ! r ! j / p" if "j \<le> coln" for j
    using piv that by (simp add: pivoted_def p_def)
  have rowk: "t' ! k ! j = t ! k ! j + (- (t ! k ! c)) * (t ! r ! j / p)"
    if "k \<le> cn" "k \<noteq> r" "j \<le> coln" for k j
    using piv that by (simp add: pivoted_def p_def)
  have p0: "p \<noteq> 0" using p by (simp add: p_def)
  define E :: "nat \<Rightarrow> nat \<Rightarrow> rat" where
    "E k l = (if l = r then (if k = r then 1 / p else - (t ! k ! c) / p) else 0) +
             (if l = k then (if k = r then 0 else 1) else 0)" for k l
  define E' :: "nat \<Rightarrow> nat \<Rightarrow> rat" where
    "E' k l = (if l = r then t ! k ! c else 0) + (if l = k then (if k = r then 0 else 1) else 0)" for k l
  have E_last: "E k cn = (if k = cn then 1 else 0)" if "k \<le> cn" for k
    using r by (auto simp: E_def)
  have E'_last: "E' k cn = (if k = cn then 1 else 0)" if "k \<le> cn" for k
    using r by (auto simp: E'_def)
  have fwd: "t' ! k ! j = (\<Sum>l\<le>cn. E k l * t ! l ! j)" if k: "k \<le> cn" and j: "j \<le> coln" for k j
  proof -
    have "(\<Sum>l\<le>cn. E k l * t ! l ! j) =
        (if k = r then 1 / p else - (t ! k ! c) / p) * t ! r ! j + (if k = r then 0 else 1) * t ! k ! j"
      unfolding E_def using r k by (intro sum_two_deltas) auto
    then show ?thesis using rowr [OF j] rowk [OF k _ j] by (cases "k = r") simp_all
  qed
  have bwd: "t ! k ! j = (\<Sum>l\<le>cn. E' k l * t' ! l ! j)" if k: "k \<le> cn" and j: "j \<le> coln" for k j
  proof -
    have "(\<Sum>l\<le>cn. E' k l * t' ! l ! j) = t ! k ! c * t' ! r ! j + (if k = r then 0 else 1) * t' ! k ! j"
      unfolding E'_def using r k by (intro sum_two_deltas) auto
    then show ?thesis using rowr [OF j] rowk [OF k _ j] p0 by (cases "k = r") (simp_all add: p_def)
  qed
  have "lin cn coln t t'" unfolding lin_def using E_last fwd by (intro exI [of _ E]) auto
  moreover have "lin cn coln t' t" unfolding lin_def using E'_last bwd by (intro exI [of _ E']) auto
  ultimately show ?thesis by simp
qed

lemma pivoted_canonical:
  assumes piv: "pivoted t cn coln r c t'" and r: "r < cn" and c: "c \<le> coln" and p: "t ! r ! c \<noteq> 0"
    and can: "canonical t cn coln bs"
  shows "canonical t' cn coln (bs[r := c])"
proof -
  have len: "length bs = cn" using can by (simp add: canonical_def)
  have col: "bs ! i \<le> coln" "t ! k ! (bs ! i) = (if k = i then 1 else 0)" if "i < cn" "k \<le> cn" for i k
    using can that by (simp_all add: canonical_def)
  have rowr: "t' ! r ! j = t ! r ! j / t ! r ! c" if "j \<le> coln" for j
    using piv that by (simp add: pivoted_def)
  have rowk: "t' ! k ! j = t ! k ! j + (- (t ! k ! c)) * (t ! r ! j / t ! r ! c)"
    if "k \<le> cn" "k \<noteq> r" "j \<le> coln" for k j
    using piv that by (simp add: pivoted_def)
  have "bs[r := c] ! i \<le> coln \<and> t' ! k ! (bs[r := c] ! i) = (if k = i then 1 else 0)"
    if i: "i < cn" and k: "k \<le> cn" for i k
  proof (cases "i = r")
    case True
    then have b: "bs[r := c] ! i = c" using len r by simp
    show ?thesis
    proof (cases "k = r")
      case True
      then show ?thesis using b c rowr [OF c] p \<open>i = r\<close> by simp
    next
      case False
      then show ?thesis using b c rowk [OF k False c] p \<open>i = r\<close> by simp
    qed
  next
    case False
    then have b: "bs[r := c] ! i = bs ! i" by simp
    have zero: "t ! r ! (bs ! i) = 0" using col(2) [OF i, of r] r False by simp
    show ?thesis
    proof (cases "k = r")
      case True
      then show ?thesis using b col(1) [OF i k] rowr [OF col(1) [OF i k]] zero False by simp
    next
      case kr: False
      then show ?thesis
        using b col [OF i k] rowk [OF k kr col(1) [OF i k]] zero by simp
    qed
  qed
  then have "\<forall>i<cn. bs[r := c] ! i \<le> coln \<and>
      (\<forall>k\<le>cn. t' ! k ! (bs[r := c] ! i) = (if k = i then 1 else 0))"
    by (meson le0)
  then show ?thesis using len by (simp add: canonical_def)
qed

lemma canonical_unique:
  assumes c1: "canonical t1 cn coln bs" and c2: "canonical t2 cn coln bs"
    and l: "lin cn coln t1 t2" and k: "k \<le> cn" and j: "j \<le> coln"
  shows "t2 ! k ! j = t1 ! k ! j"
proof -
  from l obtain N :: "nat \<Rightarrow> nat \<Rightarrow> rat"
    where last: "\<forall>k\<le>cn. N k cn = (if k = cn then 1 else 0)"
      and ent: "\<forall>k\<le>cn. \<forall>j\<le>coln. t2 ! k ! j = (\<Sum>l\<le>cn. N k l * t1 ! l ! j)"
    unfolding lin_def by blast
  have unit: "N k i = (if i = k then 1 else 0)" if i: "i \<le> cn" for i
  proof (cases "i = cn")
    case True
    then show ?thesis using last k by auto
  next
    case False
    then have i': "i < cn" using i by simp
    have b: "bs ! i \<le> coln" using c1 i' by (simp add: canonical_def)
    have "t2 ! k ! (bs ! i) = (\<Sum>l\<le>cn. N k l * t1 ! l ! (bs ! i))" using ent k b by simp
    also have "\<dots> = (\<Sum>l\<le>cn. N k l * (if l = i then 1 else 0))"
      by (rule sum.cong) (use c1 i' in \<open>auto simp: canonical_def\<close>)
    also have "\<dots> = N k i" using i by (simp add: sum_delta_le')
    finally have "N k i = t2 ! k ! (bs ! i)" by simp
    then show ?thesis using c2 i' k by (auto simp: canonical_def)
  qed
  have "t2 ! k ! j = (\<Sum>l\<le>cn. N k l * t1 ! l ! j)" using ent k j by simp
  also have "\<dots> = (\<Sum>l\<le>cn. (if l = k then 1 else 0) * t1 ! l ! j)"
    by (rule sum.cong) (use unit in auto)
  also have "\<dots> = t1 ! k ! j" using k by (simp add: sum_delta_le)
  finally show ?thesis .
qed

lemma iterations_basis:
  "run_inv s0 \<Longrightarrow> canonical (tableau s0) (constraintNumb s0) (colNumb s0) bs0 \<Longrightarrow>
   iterations n s0 = Some s \<Longrightarrow>
   (\<exists>bs. canonical (tableau s) (constraintNumb s0) (colNumb s0) bs) \<and>
   lin (constraintNumb s0) (colNumb s0) (tableau s0) (tableau s) \<and>
   lin (constraintNumb s0) (colNumb s0) (tableau s) (tableau s0)"
proof (induction n arbitrary: s)
  case 0
  then show ?case using lin_refl by auto
next
  case (Suc n)
  from iterations_Suc [OF Suc.prems(3)]
  obtain s1 where s1: "iterations n s0 = Some s1" "iteration s1 = Inr s" by blast
  from Suc.IH [OF Suc.prems(1,2) s1(1)]
  obtain bs where bs: "canonical (tableau s1) (constraintNumb s0) (colNumb s0) bs"
    and l1: "lin (constraintNumb s0) (colNumb s0) (tableau s0) (tableau s1)"
      "lin (constraintNumb s0) (colNumb s0) (tableau s1) (tableau s0)"
    by blast
  from iterations_run_inv [OF Suc.prems(1) s1(1)]
  have inv: "run_inv s1" "constraintNumb s1 = constraintNumb s0" "colNumb s1 = colNumb s0"
    by simp_all
  have li: "loop_inv s1" using inv(1) by (simp add: run_inv_def)
  from iteration_Inr [OF li s1(2)]
  obtain c r where c: "c \<le> colNumb s0" and r: "r < constraintNumb s0" "0 < tableau s1 ! r ! c"
    and piv: "pivoted (tableau s1) (constraintNumb s0) (colNumb s0) r c (tableau s)"
    using inv by auto
  have p: "tableau s1 ! r ! c \<noteq> 0" using r(2) by simp
  have "canonical (tableau s) (constraintNumb s0) (colNumb s0) (bs[r := c])"
    using piv r(1) c p bs by (rule pivoted_canonical)
  moreover from pivoted_lin [OF piv r(1) p]
  have "lin (constraintNumb s0) (colNumb s0) (tableau s0) (tableau s)"
    "lin (constraintNumb s0) (colNumb s0) (tableau s) (tableau s0)"
    using l1 lin_trans by blast+
  ultimately show ?case by blast
qed

lemma canonical_heading: "canonical t cn coln bs \<Longrightarrow> bs \<in> {bs. set bs \<subseteq> {..coln} \<and> length bs = cn}"
  by (auto simp: canonical_def in_set_conv_nth)

lemma no_infinite_nondegenerate_run:
  assumes inv: "run_inv s0" and can: "canonical (tableau s0) (constraintNumb s0) (colNumb s0) bs0"
    and all: "\<forall>n. \<exists>s. iterations n s0 = Some s"
    and strict: "\<forall>n s s'. iterations n s0 = Some s \<longrightarrow> iteration s = Inr s' \<longrightarrow>
        tableau s ! constraintNumb s0 ! colNumb s0 < tableau s' ! constraintNumb s0 ! colNumb s0"
  shows False
proof -
  define cn where "cn = constraintNumb s0"
  define coln where "coln = colNumb s0"
  define S where "S n = the (iterations n s0)" for n
  have S: "iterations n s0 = Some (S n)" for n using all by (simp add: S_def)
  define g where "g n = tableau (S n) ! cn ! coln" for n
  have step: "g n < g (Suc n)" for n
  proof -
    from iterations_Suc [OF S [of "Suc n"]] S [of n]
    have "iteration (S n) = Inr (S (Suc n))" by simp
    then show ?thesis using strict S [of n] by (auto simp: g_def cn_def coln_def)
  qed
  have mono: "g m < g n" if "m < n" for m n
    using step that by (rule lift_Suc_mono_less)
  have basis: "\<exists>bs. canonical (tableau (S n)) cn coln bs" for n
    using iterations_basis [OF inv can S [of n]] by (simp add: cn_def coln_def)
  then obtain f where f: "\<And>n. canonical (tableau (S n)) cn coln (f n)" by metis
  have lin_mn: "lin cn coln (tableau (S m)) (tableau (S n))" for m n
    using iterations_basis [OF inv can S [of m]] iterations_basis [OF inv can S [of n]] lin_trans
    unfolding cn_def coln_def by blast
  have "inj f"
  proof (rule injI)
    fix m n assume eq: "f m = f n"
    show "m = n"
    proof (rule ccontr)
      assume ne: "m \<noteq> n"
      have "g n = g m"
        unfolding g_def
        using canonical_unique [OF f [of m] f [of n, folded eq] lin_mn [of m n], of cn coln] by simp
      then show False using mono [of m n] mono [of n m] ne by (cases "m < n") auto
    qed
  qed
  moreover have "range f \<subseteq> {bs. set bs \<subseteq> {..coln} \<and> length bs = cn}"
    using f canonical_heading by blast
  then have "finite (range f)"
    using finite_lists_length_eq [of "{..coln}" cn] by (rule finite_subset) simp
  ultimately have "finite (UNIV :: nat set)" by (rule finite_imageD [rotated])
  then show False by simp
qed

section \<open>The claims\<close>

text \<open>
  Claim C1 describes the pivot of one thread. With two threads, on the scenario, the thread
  that owns row 0 reaches line 341 after the other has stored the next entering column 0:
  row 0 is reduced by its entry in column 0, not column 1, and becomes
  \<open>[1, -1, 1, -1/2, 0, -2]\<close> instead of staying \<open>[1, 0, 1, 0, 0, 4]\<close>, as it does when no row
  is late.
\<close>

theorem C1_late_row_reads_next_column:
  "row_eliminator_s [0] scenario 3 5 1 1 (maxC scenario_start) =
     Some ([[1, - 1, 1, - (1 / 2), 0, - 2], [0, 1, 0, 1 / 2, 0, 6], [3, 0, 0, - 1, 1, 6],
            [- 3, 0, 0, 5 / 2, 0, 30]], \<lparr>val = 3, index = 0\<rparr>, 1) \<and>
   row_eliminator_s [] scenario 3 5 1 1 (maxC scenario_start) =
     Some ([[1, 0, 1, 0, 0, 4], [0, 1, 0, 1 / 2, 0, 6], [3, 0, 0, - 1, 1, 6],
            [- 3, 0, 0, 5 / 2, 0, 30]], \<lparr>val = 3, index = 0\<rparr>, 1)"
  by code_simp

text \<open>
  Claim C2 gives two pivots for the scenario. That is the run of one thread; when row 0, or
  rows 0 and 2, are late in the first pass, the run ends after three, or four, pivots.
\<close>

theorem C2_raced_scenario_three_or_four_pivots:
  "map_option iteration_count (simplex_s row0_late scenario 3 5) = Some (Some 3) \<and>
   map_option iteration_count (simplex_s rows02_late scenario 3 5) = Some (Some 4) \<and>
   map_option iteration_count (simplex_s (\<lambda>n. one_thread) scenario 3 5) = Some (Some 2)"
  by code_simp

text \<open>
  Claim C3 excludes a crash. On the tableau of the claim \<open>min.index\<close> is still \<open>-1\<close> in the
  first pass; a thread that goes past the \<open>single nowait\<close> of line 319 reads
  \<open>tableau[-1][0]\<close> at line 329 before \<open>exit(1)\<close> has ended the process. One thread ends with
  \<open>exit(1)\<close>.
\<close>

theorem C3_thread_ahead_reads_row_minus_one:
  "state_at 0 unbounded_scenario 1 2 = Some unbounded_start \<and>
   index (minC unbounded_start) = - 1 \<and>
   iteration_s \<lparr>ahead = True, late = []\<rparr> unbounded_start = Inl OutOfBounds \<and>
   simplex_s others_ahead unbounded_scenario 1 2 = Some (Inl OutOfBounds) \<and>
   exit_status (Inl OutOfBounds) = None \<and>
   simplex_s (\<lambda>n. one_thread) unbounded_scenario 1 2 = Some (Inl NoSolution)"
  by code_simp











text \<open>
  Claim C5 says that the right-hand side stays at least 0 in every run. With row 0 late in
  the first pass of the scenario, whose start is feasible, the second pass starts with the
  right-hand side \<open>-2\<close> in row 0.
\<close>

theorem C5_raced_pass_negative_rhs:
  "feasible scenario 3 5 \<and> state_at 0 scenario 3 5 = Some scenario_start \<and>
   iteration_s (row0_late 0) scenario_start = Inr raced_mid \<and> conta raced_mid = 1 \<and>
   tableau raced_mid ! 0 ! 5 = - 2 \<and> \<not> feasible (tableau raced_mid) 3 5"
  by code_simp

text \<open>
  Claim C6 says that the objective value never goes down. After the raced first pass of the
  scenario the second pass takes it from 30 to 24.
\<close>

theorem C6_raced_run_objective_drops:
  "iteration_s (row0_late 0) scenario_start = Inr raced_mid \<and>
   iteration_s (row0_late 1) raced_mid = Inr raced_next \<and>
   tableau raced_mid ! 3 ! 5 = 30 \<and> tableau raced_next ! 3 ! 5 = 24"
  by code_simp

text \<open>
  Claim C7 fails as stated, already for one thread and exact arithmetic. Chvatal's tableau
  is well formed and in canonical form for the basis of its slack columns 4, 5 and 6, this
  starting basis is feasible and the objective row has negative entries; the loop never ends
  on it: after six pivots the tableau and the entering column are those of the start.
\<close>

theorem C7_counterexample:
  "wf_tab chvatal 3 7 \<and> canonical chvatal 3 7 [4, 5, 6] \<and> feasible chvatal 3 7 \<and>
   objective_has_negative chvatal 3 7 \<and> simplex chvatal 3 7 = None"
proof -
  have "wf_tab chvatal 3 7" by (simp add: wf_tab_def chvatal_def)
  moreover have "canonical chvatal 3 7 [4, 5, 6]"
    unfolding canonical_def chvatal_def
    by (simp add: less_Suc_eq le_Suc_eq numeral_3_eq_3 all_conj_distrib)
  moreover have "feasible chvatal 3 7" by code_simp
  moreover have "objective_has_negative chvatal 3 7" by code_simp
  moreover have "simplex chvatal 3 7 = None"
    using chvatal_start cycle_forever by (auto simp: simplex_def)
  ultimately show ?thesis by simp
qed

lemma iterations_None_later: "iterations n s0 = None \<Longrightarrow> iterations (n + k) s0 = None"
  by (induction k) simp_all

text \<open>
  Claim C7, amended: for one thread and exact arithmetic, on a well-formed tableau in
  canonical form for some basis, whose objective row has a strictly negative entry, if no
  pivot of the run is degenerate (every pass raises the objective value) then the loop ends
  after finitely many passes, in the Unbounded terminal (\<open>exit(1)\<close>) or in the Optimal
  terminal (\<open>conta = 0\<close>).
\<close>

theorem C7_nondegenerate_run_terminates:
  assumes wf: "wf_tab t cn coln" and can: "canonical t cn coln bs"
    and neg: "objective_has_negative t cn coln" and nd: "nondegenerate_run t cn coln"
  shows "\<exists>n s res. state_at n t cn coln = Some s \<and> exits_with s res \<and>
            simplex t cn coln = Some res \<and>
            (res = Inl NoSolution \<or> (\<exists>s'. res = Inr s' \<and> conta s' = 0))"
proof (rule ccontr)
  assume no: "\<not> ?thesis"
  from simplex_initial [OF wf]
  obtain s0 where s0: "run_inv s0" "tableau s0 = t" "constraintNumb s0 = cn" "colNumb s0 = coln"
    "\<And>n. state_at n t cn coln = iterations n s0"
    by metis
  from terminal_or_forever [OF wf neg] no
  have all: "\<forall>n. \<exists>s. iterations n s0 = Some s" using s0(5) by auto
  have can0: "canonical (tableau s0) (constraintNumb s0) (colNumb s0) bs" using can s0 by simp
  have strict: "\<forall>n s s'. iterations n s0 = Some s \<longrightarrow> iteration s = Inr s' \<longrightarrow>
        tableau s ! constraintNumb s0 ! colNumb s0 < tableau s' ! constraintNumb s0 ! colNumb s0"
    using nd s0 by (simp add: nondegenerate_run_def)
  from no_infinite_nondegenerate_run [OF s0(1) can0 all strict] show False .
qed

lemma nondegenerate_scenario: "nondegenerate_run scenario 3 5"
  unfolding nondegenerate_run_def
proof (intro allI impI)
  fix n s s'
  assume st: "state_at n scenario 3 5 = Some s" and it: "iteration s = Inr s'"
  have two: "state_at 2 scenario 3 5 = None" by code_simp
  from simplex_initial [OF wf_scenario]
  obtain s0 where s0: "\<And>n. state_at n scenario 3 5 = iterations n s0" by metis
  have "n < 2"
  proof (rule ccontr)
    assume "\<not> n < 2"
    then obtain k where "n = 2 + k" using le_Suc_ex by (metis not_less)
    then have "state_at n scenario 3 5 = None"
      using iterations_None_later [of 2 s0 k] two s0 by simp
    then show False using st by simp
  qed
  then consider "n = 0" | "n = 1" by linarith
  then show "tableau s ! 3 ! 5 < tableau s' ! 3 ! 5"
  proof cases
    case 1
    then have "s = scenario_start" using st state_at_scenario_0 by simp
    then have "s' = scenario_mid" using it iteration_scenario_start by simp
    then show ?thesis using \<open>s = scenario_start\<close>
      by (simp add: scenario_start_def scenario_mid_def scenario_def)
  next
    case 2
    then have "s = scenario_mid" using st state_at_scenario_1 by simp
    then have "s' = scenario_final" using it iteration_scenario_mid by simp
    then show ?thesis using \<open>s = scenario_mid\<close>
      by (simp add: scenario_final_def scenario_mid_def)
  qed
qed

text \<open>The scenario, with the slack columns 2, 3 and 4 as its basis.\<close>

theorem C7_nondegenerate_run_terminates_witness:
  "wf_tab scenario 3 5 \<and> canonical scenario 3 5 [2, 3, 4] \<and>
   objective_has_negative scenario 3 5 \<and> nondegenerate_run scenario 3 5 \<and>
   simplex scenario 3 5 = Some (Inr scenario_final) \<and>
   (\<exists>n s res. state_at n scenario 3 5 = Some s \<and> exits_with s res \<and>
            simplex scenario 3 5 = Some res \<and>
            (res = Inl NoSolution \<or> (\<exists>s'. res = Inr s' \<and> conta s' = 0)))"
proof -
  have can: "canonical scenario 3 5 [2, 3, 4]"
    unfolding canonical_def scenario_def
    by (simp add: less_Suc_eq le_Suc_eq numeral_3_eq_3 all_conj_distrib)
  have neg: "objective_has_negative scenario 3 5" by code_simp
  from C7_nondegenerate_run_terminates [OF wf_scenario can neg nondegenerate_scenario]
  show ?thesis using wf_scenario can neg nondegenerate_scenario simplex_scenario by blast
qed

text \<open>
  Claim C8 says that every scan leaves out the last column. The scan before the loop runs
  \<open>j = 0 .. colNumb\<close> and reads it: on the tableau with the corner \<open>-5\<close> it selects column 2,
  the last column, as the entering column, although column 0 holds the only negative
  coefficient; the run then ends with the objective value 0.
\<close>

theorem C8_initial_scan_takes_rhs_column:
  "map_option (\<lambda>s. index (maxC s)) (initial_state negative_corner 1 2) = Some 2 \<and>
   map_option objective_value (simplex negative_corner 1 2) = Some (Some 0)"
  by code_simp

text \<open>
  Claim C10 fails as stated on a tableau without constraint rows: the objective row has no
  negative entry, yet the ratio test of the first pass reads nothing, so no access of it is
  out of bounds.
\<close>

theorem C10_counterexample_no_rows:
  "wf_tab no_constraints 0 1 \<and> \<not> objective_has_negative no_constraints 0 1 \<and>
   first_ratio_test no_constraints 0 1 = Some (Compare_Min_default, 0)"
  by code_simp

text \<open>
  Claim C10, amended: under every schedule the loop body is entered without any test of the
  first scan's result (the run is the first pass followed by the rest of the loop), also
  when the entering index is still \<open>-1\<close>; and for a tableau with at least one constraint row,
  the ratio test of the first pass stays inside the block exactly when the objective row has
  a strictly negative entry: without one, the run reads column \<open>-1\<close>.
\<close>

theorem C10_first_ratio_test_in_bounds:
  assumes wf: "wf_tab t cn coln"
  shows "\<exists>s0. initial_state t cn coln = Some s0 \<and>
     simplex_s sched t cn coln =
       (case iteration_s (sched 0) s0 of
          Inl e \<Rightarrow> Some (Inl e)
        | Inr s' \<Rightarrow> if conta s' \<noteq> 0 then pivot_loop_s sched s' else Some (Inr s')) \<and>
     (\<not> objective_has_negative t cn coln \<longrightarrow> index (maxC s0) = - 1) \<and>
     (0 < cn \<longrightarrow>
        (first_ratio_test t cn coln \<noteq> None \<longleftrightarrow> objective_has_negative t cn coln) \<and>
        (\<not> objective_has_negative t cn coln \<longrightarrow> simplex_s sched t cn coln = Some (Inl OutOfBounds)))"
proof -
  from initial_state_inv [OF wf]
  obtain s0 where s0: "initial_state t cn coln = Some s0" "run_inv s0" "tableau s0 = t"
    "constraintNumb s0 = cn" "colNumb s0 = coln" "ni s0 = 0"
    "index (maxC s0) = - 1 \<longleftrightarrow> (\<forall>j\<le>coln. \<not> t ! cn ! j < 0)"
    by blast
  have wf0: "wf_tab (tableau s0) (constraintNumb s0) (colNumb s0)" using wf s0 by simp
  have A: "simplex_s sched t cn coln =
       (case iteration_s (sched 0) s0 of
          Inl e \<Rightarrow> Some (Inl e)
        | Inr s' \<Rightarrow> if conta s' \<noteq> 0 then pivot_loop_s sched s' else Some (Inr s'))"
    using s0(1,6) by (simp add: simplex_s_def) (subst pivot_loop_s.simps, simp)
  have B: "\<not> objective_has_negative t cn coln \<longrightarrow> index (maxC s0) = - 1"
    using s0(7) by (simp add: objective_has_negative_iff)
  have frt: "first_ratio_test t cn coln =
      ratio_test (tableau s0) (colNumb s0) (index (maxC s0)) [0..<constraintNumb s0] (minC s0, count s0)"
    using s0(1) by (simp add: first_ratio_test_def)
  have C: "first_ratio_test t cn coln \<noteq> None" if neg: "objective_has_negative t cn coln"
  proof -
    have "index (maxC s0) \<noteq> - 1" using neg s0(7) by (simp add: objective_has_negative_iff)
    then obtain c where c: "c \<le> colNumb s0" "index (maxC s0) = int c"
      using s0(2) by (auto simp: run_inv_def)
    have rows: "\<forall>i\<in>set [0..<constraintNumb s0]. i \<le> constraintNumb s0" by auto
    from ratio_test_effect [OF wf0 c(1) rows, of "minC s0" "count s0"]
    show ?thesis unfolding frt c(2) by auto
  qed
  have D: "first_ratio_test t cn coln = None \<and> simplex_s sched t cn coln = Some (Inl OutOfBounds)"
    if neg: "\<not> objective_has_negative t cn coln" and cn: "0 < cn"
  proof -
    have m1: "index (maxC s0) = - 1" using neg B by simp
    then have wild: "\<not> (0 \<le> index (maxC s0) \<and> nat (index (maxC s0)) \<le> colNumb s0)" by simp
    have ne: "[0..<constraintNumb s0] \<noteq> []" using cn s0(4) by simp
    have rows: "\<forall>i\<in>set [0..<constraintNumb s0]. i \<le> constraintNumb s0" by auto
    have r: "first_ratio_test t cn coln = None"
      unfolding frt using wf0 wild ne rows by (rule ratio_test_wild)
    then have "iteration_s (sched 0) s0 = Inl OutOfBounds"
      unfolding frt by (rule iteration_s_wild_column)
    then show ?thesis using r A by simp
  qed
  show ?thesis using s0(1) A B C D by blast
qed

text \<open>A tableau with one constraint row and no negative objective entry.\<close>

theorem C10_first_ratio_test_in_bounds_witness:
  "wf_tab optimal_at_start 1 2 \<and> \<not> objective_has_negative optimal_at_start 1 2 \<and>
   first_ratio_test optimal_at_start 1 2 = None \<and>
   simplex_s others_ahead optimal_at_start 1 2 = Some (Inl OutOfBounds)"
proof -
  have wf: "wf_tab optimal_at_start 1 2" by (simp add: wf_tab_def optimal_at_start_def)
  have neg: "\<not> objective_has_negative optimal_at_start 1 2" by code_simp
  from C10_first_ratio_test_in_bounds [OF wf, of others_ahead]
  have "0 < (1::nat) \<longrightarrow>
        (first_ratio_test optimal_at_start 1 2 \<noteq> None \<longleftrightarrow> objective_has_negative optimal_at_start 1 2) \<and>
        (\<not> objective_has_negative optimal_at_start 1 2 \<longrightarrow>
           simplex_s others_ahead optimal_at_start 1 2 = Some (Inl OutOfBounds))"
    by (elim exE conjE)
  then have "first_ratio_test optimal_at_start 1 2 = None"
    "simplex_s others_ahead optimal_at_start 1 2 = Some (Inl OutOfBounds)"
    using neg zero_less_one [where 'a = nat] by blast+
  then show ?thesis using wf neg by simp
qed

end
